theory Spec2Isabelle
  imports Complex_Main "HOL-Library.Word" "HOL-Library.Sublist"
begin

unbundle bit_operations_syntax

section \<open>The serial animation protocol of the Blinkenlights web application\<close>

text \<open>
  The source is \<^verbatim>\<open>src/WebApp/script.js\<close>, which holds two listings of the script:
  the first (lines 1 to 465) sends decoded GIF animations and the digit clock, the second
  (lines 466 to 778) samples a static image from a canvas and transmits a colour
  correction. Functions of the second listing whose name also occurs in the first carry
  the suffix \<open>_2\<close> here.

  JavaScript values are embedded as follows. Integral numbers (durations, table entries,
  colour channels) are \<open>int\<close> or \<open>nat\<close>; the 32-bit operators \<^verbatim>\<open><<\<close> and \<^verbatim>\<open>|\<close> work on
  \<open>32 word\<close>; strings are \<open>string\<close>; \<^verbatim>\<open>undefined\<close> is \<open>None\<close>; a thrown exception is a value
  of type \<open>error\<close>, returned together with the state reached when it was thrown.
  Fractional numbers (the gamma exponent, the slider positions) are \<open>real\<close>. In the
  gamma tables the arithmetic of the model is exact: \<^verbatim>\<open>**\<close> is approximated by every
  implementation in its own way, and the rounding of IEEE doubles is not represented
  there. The colour correction multiplies and rounds as doubles do (\<open>fl\<close> below).
\<close>

subsection \<open>Global state and the output stream\<close>

datatype error = TypeError

text \<open>
  The module-level variables. A handle is represented by whether it is set
  (the code only ever tests handles for truthiness); \<open>written\<close> is the sequence of
  chunks handed to the writer of the output stream so far.
\<close>

record session =
  port :: bool
  reader :: bool
  inputDone :: bool
  outputDone :: bool
  inputStream :: bool
  outputStream :: bool
  gammaTable :: "int option list"
  written :: "string list"

type_synonym 'a action = "'a \<Rightarrow> error option \<times> 'a"

definition andThen :: "'a action \<Rightarrow> 'a action \<Rightarrow> 'a action" where
  "andThen f g s = (case f s of (Some e, s') \<Rightarrow> (Some e, s') | (None, s') \<Rightarrow> g s')"

fun forEach :: "('x \<Rightarrow> 'a action) \<Rightarrow> 'x list \<Rightarrow> 'a action" where
  "forEach f [] s = (None, s)"
| "forEach f (x # xs) s = andThen (f x) (forEach f xs) s"

definition newline :: char where
  "newline = CHR 0x0A"

definition carriage_return :: char where
  "carriage_return = CHR 0x0D"

text \<open>
  \<^verbatim>\<open>writeToStream(...lines)\<close>: \<^verbatim>\<open>outputStream.getWriter()\<close> throws a TypeError when
  \<^verbatim>\<open>outputStream\<close> is not set; otherwise every line is written followed by a newline.
\<close>

definition writeToStream :: "string list \<Rightarrow> session action" where
  "writeToStream lines st =
     (if outputStream st
      then (None, st\<lparr>written := written st @ map (\<lambda>line. line @ [newline]) lines\<rparr>)
      else (Some TypeError, st))"

subsection \<open>Numbers as strings\<close>

definition digit_char :: "nat \<Rightarrow> char" where
  "digit_char d = ''0123456789abcdef'' ! (d mod 16)"

function radix_digits :: "nat \<Rightarrow> nat \<Rightarrow> string" where
  "radix_digits b n =
     (if n < b \<or> b < 2 then [digit_char n] else radix_digits b (n div b) @ [digit_char (n mod b)])"
  by pat_completeness auto
termination
  by (relation "measure (\<lambda>(b, n). n)") auto

declare radix_digits.simps [simp del]

text \<open>
  \<^verbatim>\<open>number.toString(radix)\<close> for an integral number: a minus sign for a negative
  number, then the digits, lower case. (The decimal form is also what string
  concatenation produces for an integer of magnitude below \<open>10^21\<close>.)
\<close>

definition number_toString :: "nat \<Rightarrow> int \<Rightarrow> string" where
  "number_toString radix n =
     (if n < 0 then CHR ''-'' # radix_digits radix (nat (- n)) else radix_digits radix (nat n))"

subsection \<open>Frames, animations and their transmission\<close>

record frame =
  frame_duration :: int
  rows :: "string list"

record animation =
  duration :: int
  frames :: "frame list"

definition newAnimation :: "int \<Rightarrow> animation" where
  "newAnimation ms = \<lparr>duration = ms, frames = []\<rparr>"

definition addFrame :: "frame \<Rightarrow> animation \<Rightarrow> animation" where
  "addFrame f anim = anim\<lparr>frames := frames anim @ [f]\<rparr>"

definition sendFrame :: "frame \<Rightarrow> session action" where
  "sendFrame f =
     andThen (writeToStream [''FRM '' @ number_toString 10 (frame_duration f)])
             (forEach (\<lambda>row. writeToStream [''RGB '' @ row]) (rows f))"

definition sendAnimation :: "animation \<Rightarrow> session action" where
  "sendAnimation anim =
     andThen (writeToStream [''ANM '' @ number_toString 10 (duration anim)])
       (andThen (forEach sendFrame (frames anim))
                (writeToStream [''DON'', ''NXT'']))"

text \<open>The lines the wire format prescribes for an animation, written from the specification.\<close>

definition frame_lines :: "frame \<Rightarrow> string list" where
  "frame_lines f =
     (''FRM '' @ number_toString 10 (frame_duration f)) # map (\<lambda>row. ''RGB '' @ row) (rows f)"

definition animation_lines :: "animation \<Rightarrow> string list" where
  "animation_lines anim =
     [''ANM '' @ number_toString 10 (duration anim)]
     @ concat (map frame_lines (frames anim))
     @ [''DON'', ''NXT'']"

definition terminated :: "string list \<Rightarrow> string list" where
  "terminated ls = map (\<lambda>line. line @ [newline]) ls"

subsection \<open>Hexadecimal encoding of a frame\<close>

text \<open>
  \<^verbatim>\<open>String.prototype.padStart(targetLength, padString)\<close>: the string is returned as it
  is when it already has the target length or the filler is empty; otherwise the
  filler is repeated and cut to the missing length.
\<close>

definition padStart :: "nat \<Rightarrow> string \<Rightarrow> string \<Rightarrow> string" where
  "padStart targetLength padString s =
     (if targetLength \<le> length s \<or> padString = [] then s
      else take (targetLength - length s)
             (concat (replicate (targetLength - length s) padString)) @ s)"

text \<open>\<^verbatim>\<open>toUpperCase\<close> on the characters that occur here (ASCII).\<close>

definition toUpperCase_char :: "char \<Rightarrow> char" where
  "toUpperCase_char c =
     (case map_of (zip ''abcdefghijklmnopqrstuvwxyz'' ''ABCDEFGHIJKLMNOPQRSTUVWXYZ'') c of
        Some u \<Rightarrow> u | None \<Rightarrow> c)"

definition toUpperCase :: "string \<Rightarrow> string" where
  "toUpperCase s = map toUpperCase_char s"

definition paddedHex :: "int \<Rightarrow> nat \<Rightarrow> string" where
  "paddedHex number width = toUpperCase (padStart width ''0'' (number_toString 16 number))"

text \<open>
  A colour channel is a number or \<^verbatim>\<open>undefined\<close>. A cell of a pixel grid is an empty
  array slot, a number (what \<^verbatim>\<open>row.fill(0)\<close> stores) or an array, of which the
  destructuring \<^verbatim>\<open>[r, g, b]\<close> reads the first three elements.
\<close>

type_synonym chan = "nat option"

datatype cell = Hole | Num int | Rgb chan chan chan

text \<open>
  \<^verbatim>\<open>gammaTable[r]\<close> is \<^verbatim>\<open>undefined\<close> outside the table; an entry \<open>None\<close> of the table
  is a number that is not finite. \<^verbatim>\<open>ToInt32\<close> sends all of these to 0 and a finite
  integer to its 32-bit two's complement value.
\<close>

definition table_at :: "int option list \<Rightarrow> chan \<Rightarrow> int option" where
  "table_at tbl ch =
     (case ch of None \<Rightarrow> None | Some i \<Rightarrow> if i < length tbl then tbl ! i else None)"

definition ToInt32 :: "int option \<Rightarrow> 32 word" where
  "ToInt32 v = (case v of None \<Rightarrow> 0 | Some k \<Rightarrow> word_of_int k)"

definition pixel_value :: "int option list \<Rightarrow> chan \<Rightarrow> chan \<Rightarrow> chan \<Rightarrow> int" where
  "pixel_value tbl r g b =
     sint (push_bit 16 (ToInt32 (table_at tbl r))
           OR push_bit 8 (ToInt32 (table_at tbl g))
           OR ToInt32 (table_at tbl b))"

fun traverse :: "('a \<Rightarrow> error + 'b) \<Rightarrow> 'a list \<Rightarrow> error + 'b list" where
  "traverse f [] = Inr []"
| "traverse f (x # xs) =
     (case f x of Inl e \<Rightarrow> Inl e
      | Inr y \<Rightarrow> (case traverse f xs of Inl e \<Rightarrow> Inl e | Inr ys \<Rightarrow> Inr (y # ys)))"

text \<open>Destructuring a cell that is not an array throws a TypeError.\<close>

definition encode_cell :: "int option list \<Rightarrow> cell \<Rightarrow> error + string" where
  "encode_cell tbl c =
     (case c of Rgb r g b \<Rightarrow> Inr (paddedHex (pixel_value tbl r g b) 6) | _ \<Rightarrow> Inl TypeError)"

definition encode_row :: "int option list \<Rightarrow> cell list \<Rightarrow> error + string" where
  "encode_row tbl row =
     (case traverse (encode_cell tbl) row of Inl e \<Rightarrow> Inl e | Inr groups \<Rightarrow> Inr (concat groups))"

text \<open>The constructor of class \<^verbatim>\<open>Frame\<close>, reading the global gamma table.\<close>

definition new_Frame :: "int option list \<Rightarrow> int \<Rightarrow> cell list list \<Rightarrow> error + frame" where
  "new_Frame tbl ms pixels =
     (case traverse (encode_row tbl) pixels of
        Inl e \<Rightarrow> Inl e
      | Inr rs \<Rightarrow> Inr \<lparr>frame_duration = ms, rows = rs\<rparr>)"

text \<open>
  The specification's wording of one pixel group: the value
  \<open>table[R] * 2^16 + table[G] * 2^8 + table[B]\<close> as six upper-case hexadecimal digits.
\<close>

definition upper_hex_digit :: "nat \<Rightarrow> char" where
  "upper_hex_digit d = ''0123456789ABCDEF'' ! (d mod 16)"

definition hex6 :: "nat \<Rightarrow> string" where
  "hex6 v = map (\<lambda>k. upper_hex_digit (v div 16 ^ k mod 16)) [5, 4, 3, 2, 1, 0]"

fun hex_fixed :: "(nat \<Rightarrow> char) \<Rightarrow> nat \<Rightarrow> nat \<Rightarrow> string" where
  "hex_fixed dc 0 n = []"
| "hex_fixed dc (Suc k) n = hex_fixed dc k (n div 16) @ [dc (n mod 16)]"

definition is_upper_hex :: "char \<Rightarrow> bool" where
  "is_upper_hex c = (c \<in> set ''0123456789ABCDEF'')"

definition channel_ok :: "chan \<Rightarrow> bool" where
  "channel_ok ch = (case ch of None \<Rightarrow> False | Some v \<Rightarrow> v \<le> 255)"

definition cell_ok :: "cell \<Rightarrow> bool" where
  "cell_ok c = (case c of Rgb r g b \<Rightarrow> channel_ok r \<and> channel_ok g \<and> channel_ok b | _ \<Rightarrow> False)"

definition grid_ok :: "cell list list \<Rightarrow> bool" where
  "grid_ok pixels = (length pixels = 16 \<and> list_all (\<lambda>row. length row = 16 \<and> list_all cell_ok row) pixels)"

definition table_ok :: "int option list \<Rightarrow> bool" where
  "table_ok tbl = (length tbl = 256
     \<and> list_all (\<lambda>e. case e of None \<Rightarrow> False | Some v \<Rightarrow> 0 \<le> v \<and> v \<le> 255) tbl)"

definition corrected :: "int option list \<Rightarrow> chan \<Rightarrow> nat" where
  "corrected tbl ch = nat (the (tbl ! the ch))"

definition group_of :: "int option list \<Rightarrow> cell \<Rightarrow> string" where
  "group_of tbl c =
     (case c of Rgb r g b \<Rightarrow>
        hex6 (corrected tbl r * 2 ^ 16 + corrected tbl g * 2 ^ 8 + corrected tbl b)
      | _ \<Rightarrow> [])"

subsection \<open>The digit clock\<close>

definition COLS :: nat where "COLS = 16"
definition ROWS :: nat where "ROWS = COLS"
definition DIGIT_ROWS :: nat where "DIGIT_ROWS = 5"
definition CLOCK_VERTICAL_OFFSET :: nat where "CLOCK_VERTICAL_OFFSET = 5"

definition Digits :: "nat list list list" where
  "Digits =
   [[[1,1,1], [1,0,1], [1,0,1], [1,0,1], [1,1,1]],
    [[0,1,0], [1,1,0], [0,1,0], [0,1,0], [1,1,1]],
    [[1,1,0], [0,0,1], [0,1,0], [1,0,0], [1,1,1]],
    [[1,1,1], [0,0,1], [0,1,1], [0,0,1], [1,1,1]],
    [[1,0,1], [1,0,1], [1,1,1], [0,0,1], [0,0,1]],
    [[1,1,1], [1,0,0], [1,1,0], [0,0,1], [1,1,0]],
    [[1,1,1], [1,0,0], [1,1,1], [1,0,1], [1,1,1]],
    [[1,1,1], [0,0,1], [0,1,0], [0,1,0], [0,1,0]],
    [[1,1,1], [1,0,1], [1,1,1], [1,0,1], [1,1,1]],
    [[1,1,1], [1,0,1], [1,1,1], [0,0,1], [1,1,1]]]"

definition fillRowIterator :: "'c \<Rightarrow> 'c list" where
  "fillRowIterator color = replicate COLS color"

definition bitmapRowIterator :: "nat list \<Rightarrow> 'c \<Rightarrow> 'c \<Rightarrow> 'c list" where
  "bitmapRowIterator row fg bg = map (\<lambda>v. if v \<noteq> 0 then fg else bg) row"

text \<open>
  \<^verbatim>\<open>Digits[d][row]\<close>: a digit outside the table makes the indexing of \<^verbatim>\<open>undefined\<close>
  throw, a row outside the glyph makes \<^verbatim>\<open>row.length\<close> in the row iterator throw.
\<close>

definition glyph_row :: "nat \<Rightarrow> nat \<Rightarrow> error + nat list" where
  "glyph_row d row =
     (if d < length Digits \<and> row < length (Digits ! d) then Inr (Digits ! d ! row)
      else Inl TypeError)"

definition digitRowIterator ::
  "nat \<Rightarrow> nat \<Rightarrow> nat \<Rightarrow> nat \<Rightarrow> nat \<Rightarrow> 'c \<Rightarrow> 'c \<Rightarrow> 'c \<Rightarrow> error + 'c list" where
  "digitRowIterator row h10 h1 m10 m1 fg bg colon =
     (case glyph_row h10 row of Inl e \<Rightarrow> Inl e | Inr a \<Rightarrow>
      case glyph_row h1 row of Inl e \<Rightarrow> Inl e | Inr b \<Rightarrow>
      let center = (if row mod 2 \<noteq> 0 then colon else bg) in
      case glyph_row m10 row of Inl e \<Rightarrow> Inl e | Inr c \<Rightarrow>
      case glyph_row m1 row of Inl e \<Rightarrow> Inl e | Inr d \<Rightarrow>
        Inr (bitmapRowIterator a fg bg @ [bg] @ bitmapRowIterator b fg bg
             @ [center, center]
             @ bitmapRowIterator c fg bg @ [bg] @ bitmapRowIterator d fg bg))"

definition digitalClockIterator ::
  "nat \<Rightarrow> nat \<Rightarrow> nat \<Rightarrow> nat \<Rightarrow> 'c \<Rightarrow> 'c \<Rightarrow> 'c \<Rightarrow> error + 'c list list" where
  "digitalClockIterator h10 h1 m10 m1 fg bg colon =
     (case traverse (\<lambda>r. digitRowIterator r h10 h1 m10 m1 fg bg colon) [0..<DIGIT_ROWS] of
        Inl e \<Rightarrow> Inl e
      | Inr glyphs \<Rightarrow>
          Inr (replicate CLOCK_VERTICAL_OFFSET (fillRowIterator bg)
               @ glyphs
               @ replicate (ROWS - (CLOCK_VERTICAL_OFFSET + DIGIT_ROWS)) (fillRowIterator bg)))"

text \<open>
  \<^verbatim>\<open>drawClockMinute(fg, bg, colon)\<close> with the hours and minutes read from the clock:
  the frame with the colon, the frame without it, then the transmission.
\<close>

definition drawClockMinute :: "nat \<Rightarrow> nat \<Rightarrow> cell \<Rightarrow> cell \<Rightarrow> cell \<Rightarrow> session action" where
  "drawClockMinute hours minutes fg bg colon st =
     (case digitalClockIterator (hours div 10) (hours mod 10) (minutes div 10) (minutes mod 10)
             fg bg colon of
        Inl e \<Rightarrow> (Some e, st)
      | Inr shown \<Rightarrow>
     (case new_Frame (gammaTable st) 500 shown of
        Inl e \<Rightarrow> (Some e, st)
      | Inr f1 \<Rightarrow>
     (case digitalClockIterator (hours div 10) (hours mod 10) (minutes div 10) (minutes mod 10)
             fg bg bg of
        Inl e \<Rightarrow> (Some e, st)
      | Inr hidden \<Rightarrow>
     (case new_Frame (gammaTable st) 500 hidden of
        Inl e \<Rightarrow> (Some e, st)
      | Inr f2 \<Rightarrow> sendAnimation (addFrame f2 (addFrame f1 (newAnimation 60000))) st))))"

text \<open>A connected session and the all-white single-frame animation of the scenario.\<close>

definition open_session :: session where
  "open_session = \<lparr>port = True, reader = True, inputDone = True, outputDone = True,
     inputStream = True, outputStream = True, gammaTable = [], written = []\<rparr>"

definition white_frame :: frame where
  "white_frame = \<lparr>frame_duration = 1000, rows = replicate 16 (concat (replicate 16 ''FFFFFF''))\<rparr>"

definition white_animation :: animation where
  "white_animation = \<lparr>duration = 600000, frames = [white_frame]\<rparr>"

text \<open>A gamma table that maps every value to itself, and a grid of one colour.\<close>

definition identity_table :: "int option list" where
  "identity_table = map (\<lambda>i. Some (int i)) [0..<256]"

definition orange_grid :: "cell list list" where
  "orange_grid = replicate 16 (replicate 16 (Rgb (Some 255) (Some 128) (Some 0)))"

text \<open>The colours the clock button passes: white digits, black background, blue colon.\<close>

definition clock_fg :: cell where
  "clock_fg = Rgb (Some 255) (Some 255) (Some 255)"

definition clock_bg :: cell where
  "clock_bg = Rgb (Some 0) (Some 0) (Some 0)"

definition clock_colon :: cell where
  "clock_colon = Rgb (Some 0) (Some 0) (Some 255)"

subsection \<open>The line transformer of the input stream\<close>

text \<open>
  \<^verbatim>\<open>String.prototype.split(separator)\<close> for a non-empty separator: the string is
  scanned from the left, every occurrence of the separator that does not overlap the
  previous one ends a segment, the rest after the last occurrence is the last segment.
  The result is never empty. (The separators of both listings are non-empty literals.)
\<close>

definition cons_first :: "char \<Rightarrow> string list \<Rightarrow> string list" where
  "cons_first c segs = (case segs of [] \<Rightarrow> [[c]] | seg # rest \<Rightarrow> (c # seg) # rest)"

function split_on :: "string \<Rightarrow> string \<Rightarrow> string list" where
  "split_on d [] = [[]]"
| "split_on d (c # cs) =
     (if d \<noteq> [] \<and> prefix d (c # cs) then [] # split_on d (drop (length d) (c # cs))
      else cons_first c (split_on d cs))"
  by pat_completeness auto
termination
  by (relation "measure (\<lambda>(d, s). length s)") auto

declare split_on.simps(2) [simp del]

text \<open>The class \<^verbatim>\<open>LineBreakTransformer\<close>; the lines given to \<^verbatim>\<open>controller.enqueue\<close> are returned.\<close>

record LineBreakTransformer =
  container :: string

definition new_LineBreakTransformer :: LineBreakTransformer where
  "new_LineBreakTransformer = \<lparr>container = []\<rparr>"

definition transform_on ::
  "string \<Rightarrow> string \<Rightarrow> LineBreakTransformer \<Rightarrow> LineBreakTransformer \<times> string list" where
  "transform_on d chunk t =
     (let lines = split_on d (container t @ chunk)
      in (t\<lparr>container := last lines\<rparr>, butlast lines))"

text \<open>The first listing splits on a newline, the second on carriage return and newline.\<close>

definition delimiter :: string where
  "delimiter = [newline]"

definition delimiter_2 :: string where
  "delimiter_2 = [carriage_return, newline]"

definition transform :: "string \<Rightarrow> LineBreakTransformer \<Rightarrow> LineBreakTransformer \<times> string list" where
  "transform = transform_on delimiter"

definition transform_2 :: "string \<Rightarrow> LineBreakTransformer \<Rightarrow> LineBreakTransformer \<times> string list" where
  "transform_2 = transform_on delimiter_2"

definition flush :: "LineBreakTransformer \<Rightarrow> string list" where
  "flush t = [container t]"

text \<open>
  A session of the transform stream: the chunks are transformed in order by a fresh
  transformer, then the stream ends and the transformer is flushed. The result is the
  sequence of lines enqueued.
\<close>

fun feed ::
  "(string \<Rightarrow> LineBreakTransformer \<Rightarrow> LineBreakTransformer \<times> string list) \<Rightarrow>
     string list \<Rightarrow> LineBreakTransformer \<Rightarrow> string list \<Rightarrow> LineBreakTransformer \<times> string list" where
  "feed tr [] t out = (t, out)"
| "feed tr (chunk # chunks) t out =
     (case tr chunk t of (t', lines) \<Rightarrow> feed tr chunks t' (out @ lines))"

definition received ::
  "(string \<Rightarrow> LineBreakTransformer \<Rightarrow> LineBreakTransformer \<times> string list) \<Rightarrow>
     string list \<Rightarrow> string list" where
  "received tr chunks =
     (case feed tr chunks new_LineBreakTransformer [] of (t, out) \<Rightarrow> out @ flush t)"

text \<open>The specification's side: lines joined by the delimiter, and a line containing it.\<close>

definition join :: "string \<Rightarrow> string list \<Rightarrow> string" where
  "join d ls = (case ls of [] \<Rightarrow> [] | l # rest \<Rightarrow> l @ concat (map (\<lambda>x. d @ x) rest))"

fun occurs_in :: "string \<Rightarrow> string \<Rightarrow> bool" where
  "occurs_in d [] = (d = [])"
| "occurs_in d (c # cs) = (prefix d (c # cs) \<or> occurs_in d cs)"

subsection \<open>Closing the connection\<close>





subsection \<open>The colour correction command (second listing)\<close>

text \<open>
  \<^verbatim>\<open>updateColorCorrection()\<close> with the three slider values. The source calls
  \<^verbatim>\<open>padStart('0', 2)\<close>: the target length is the string \<^verbatim>\<open>'0'\<close>, converted to the
  number 0, and the filler is the number 2, converted to the string \<^verbatim>\<open>'2'\<close>.
\<close>

text \<open>
  A finite double is the real number it denotes. \<open>fl x\<close> is the double nearest to \<open>x\<close>,
  the even mantissa winning a tie, for \<open>x\<close> in the range of normal doubles: the literal
  \<^verbatim>\<open>2.55\<close> is \<open>fl 2.55\<close> and the product \<^verbatim>\<open>a * b\<close> of two doubles is \<open>fl (a * b)\<close>.
  \<^verbatim>\<open>Math.round\<close> is exact on a double and rounds a half up, as \<open>round\<close> does.
\<close>

definition round_half_even :: "real \<Rightarrow> int" where
  "round_half_even y =
     (let f = \<lfloor>y\<rfloor>
      in if y - of_int f < 1 / 2 then f
         else if 1 / 2 < y - of_int f then f + 1
         else if even f then f else f + 1)"

definition fl :: "real \<Rightarrow> real" where
  "fl x =
     (if x = 0 then 0
      else let u = 2 powr (of_int \<lfloor>log 2 \<bar>x\<bar>\<rfloor> - 52)
           in of_int (round_half_even (x / u)) * u)"

definition cc_byte :: "real \<Rightarrow> int" where
  "cc_byte v = round (fl (fl 2.55 * v))"

definition cc_channel :: "real \<Rightarrow> string" where
  "cc_channel v = padStart 0 ''2'' (number_toString 16 (cc_byte v))"

definition updateColorCorrection :: "real \<Rightarrow> real \<Rightarrow> real \<Rightarrow> session action" where
  "updateColorCorrection redCC greenCC blueCC =
     writeToStream [''CLC '' @ toUpperCase (cc_channel redCC @ cc_channel greenCC @ cc_channel blueCC)]"

subsection \<open>Decoded GIFs (first listing)\<close>

text \<open>
  What the GIF decoder hands over: the logical screen descriptor and, per frame, the RGBA
  patch with its rectangle and, when present, its delay. \<^verbatim>\<open>bitmap[offset]\<close> outside the
  patch is \<^verbatim>\<open>undefined\<close>.
\<close>

record gifFrame =
  patch :: "nat list"
  dims_top :: nat
  dims_left :: nat
  dims_width :: nat
  dims_height :: nat
  delay :: "int option"

record gif =
  lsd_width :: nat
  lsd_height :: nat
  decompressFrames :: "gifFrame list option"

definition byte_at :: "nat list \<Rightarrow> nat \<Rightarrow> chan" where
  "byte_at bitmap i = (if i < length bitmap then Some (bitmap ! i) else None)"

text \<open>An assignment \<^verbatim>\<open>row[i] = v\<close>: beyond the end the array grows, leaving empty slots.\<close>

definition set_at :: "cell list \<Rightarrow> nat \<Rightarrow> cell \<Rightarrow> cell list" where
  "set_at row i v =
     (if i < length row then row[i := v] else row @ replicate (i - length row) Hole @ [v])"

definition patch_cell :: "gifFrame \<Rightarrow> nat \<Rightarrow> nat \<Rightarrow> cell" where
  "patch_cell f r c =
     (let offset = (r * dims_width f + c) * 4
      in Rgb (byte_at (patch f) offset) (byte_at (patch f) (offset + 1))
             (byte_at (patch f) (offset + 2)))"

definition write_row :: "gifFrame \<Rightarrow> nat \<Rightarrow> cell list \<Rightarrow> cell list" where
  "write_row f r row =
     fold (\<lambda>c row'. set_at row' (c + dims_left f) (patch_cell f r c)) [0..<dims_width f] row"

text \<open>
  One pass of the outer loop: \<^verbatim>\<open>pixels[r + row_offset]\<close> is \<^verbatim>\<open>undefined\<close> below the last
  row, and the first assignment into it throws.
\<close>

definition write_patch_row :: "gifFrame \<Rightarrow> nat \<Rightarrow> cell list list action" where
  "write_patch_row f r px =
     (if dims_width f = 0 then (None, px)
      else if r + dims_top f < length px
           then (None, px[r + dims_top f := write_row f r (px ! (r + dims_top f))])
           else (Some TypeError, px))"

definition clear_pixels :: "cell list list \<Rightarrow> cell list list" where
  "clear_pixels px = map (map (\<lambda>_. Num 0)) px"

definition draw_gifFrame :: "gifFrame \<Rightarrow> cell list list action" where
  "draw_gifFrame f px = forEach (write_patch_row f) [0..<dims_height f] (clear_pixels px)"

definition initial_pixels :: "cell list list" where
  "initial_pixels = replicate ROWS (replicate COLS Hole)"

definition frame_delay :: "gifFrame \<Rightarrow> int" where
  "frame_delay f = (case delay f of Some d \<Rightarrow> d | None \<Rightarrow> 1000)"

definition add_gifFrame :: "int option list \<Rightarrow> gifFrame \<Rightarrow> (cell list list \<times> animation) action" where
  "add_gifFrame tbl f = (\<lambda>(px, anim).
     case draw_gifFrame f px of
       (Some e, px') \<Rightarrow> (Some e, (px', anim))
     | (None, px') \<Rightarrow>
         (case new_Frame tbl (frame_delay f) px' of
            Inl e \<Rightarrow> (Some e, (px', anim))
          | Inr fr \<Rightarrow> (None, (px', addFrame fr anim))))"

text \<open>
  The \<^verbatim>\<open>onload\<close> handler of \<^verbatim>\<open>sendGifAnimation(img)\<close>, given the response:
  \<open>None\<close> when there is no array buffer, else the parsed GIF.
\<close>

definition sendGifAnimation :: "gif option \<Rightarrow> session action" where
  "sendGifAnimation response st =
     (case response of
        None \<Rightarrow> (None, st)
      | Some g \<Rightarrow>
          if lsd_width g \<noteq> ROWS \<or> lsd_height g \<noteq> COLS then (None, st)
          else (case decompressFrames g of
                  None \<Rightarrow> (None, st)
                | Some fs \<Rightarrow>
                    (case forEach (add_gifFrame (gammaTable st)) fs
                            (initial_pixels, newAnimation 600000) of
                       (Some e, _) \<Rightarrow> (Some e, st)
                     | (None, (_, anim)) \<Rightarrow> sendAnimation anim st)))"

subsection \<open>Static images (second listing)\<close>

text \<open>
  \<^verbatim>\<open>sendImage(img)\<close> draws the image at the origin of the 16 by 16 canvas and reads the
  canvas back. The drawing is done by the browser and is a parameter here: \<open>drawImage\<close>
  maps the image and the canvas content (1024 RGBA bytes) to the new content.
\<close>

record image =
  img_width :: nat
  img_height :: nat
  img_data :: "nat list"

definition image_row :: "int option list \<Rightarrow> nat list \<Rightarrow> nat \<Rightarrow> string" where
  "image_row tbl bitmap r =
     concat (map (\<lambda>c. let offset = (r * COLS + c) * 4
                       in padStart 6 ''0'' (number_toString 16
                            (pixel_value tbl (byte_at bitmap offset) (byte_at bitmap (offset + 1))
                               (byte_at bitmap (offset + 2)))))
                 [0..<COLS])"

definition sendImage_2 ::
  "(image \<Rightarrow> nat list \<Rightarrow> nat list) \<Rightarrow> image \<Rightarrow> nat list \<Rightarrow> session action" where
  "sendImage_2 drawImage img canvas st =
     (let bitmap = drawImage img canvas
      in andThen (writeToStream [''ANM 600000'', ''FRM 1000''])
           (andThen (forEach (\<lambda>r. writeToStream
                                [''RGB '' @ toUpperCase (image_row (gammaTable st) bitmap r)])
                       [0..<ROWS])
                    (writeToStream [''DON'', ''NXT''])) st)"

text \<open>
  A drawing function for opaque images, used in examples: the part of the image that
  lies on the canvas replaces the canvas content there.
\<close>

definition blit :: "image \<Rightarrow> nat list \<Rightarrow> nat list" where
  "blit img canvas =
     map (\<lambda>k. let y = k div 4 div 16; x = k div 4 mod 16
              in if x < img_width img \<and> y < img_height img
                 then (case byte_at (img_data img) ((y * img_width img + x) * 4 + k mod 4) of
                         Some b \<Rightarrow> b | None \<Rightarrow> 0)
                 else (case byte_at canvas k of Some b \<Rightarrow> b | None \<Rightarrow> 0))
         [0..<1024]"

subsection \<open>The gamma table\<close>

text \<open>
  \<^verbatim>\<open>x ** y\<close> for a base \<open>x \<ge> 0\<close> (the bases here are \<open>i / 255\<close>) on the reals: any
  number to the power 0 is 1, \<open>0 ** y\<close> is 0 for positive \<open>y\<close> and infinite (\<open>None\<close>) for
  negative \<open>y\<close>. \<^verbatim>\<open>Math.round\<close> rounds half up, as \<open>round\<close> does.
\<close>

definition js_pow :: "real \<Rightarrow> real \<Rightarrow> real option" where
  "js_pow x y =
     (if y = 0 then Some 1
      else if x = 0 then (if 0 < y then Some 0 else None)
      else Some (x powr y))"

definition gamma_entry :: "real \<Rightarrow> nat \<Rightarrow> int option" where
  "gamma_entry e i = map_option (\<lambda>p. round (255 * p)) (js_pow (real i / 255) e)"

definition build_table :: "real \<Rightarrow> int option list" where
  "build_table e = map (gamma_entry e) [0..<256]"

definition MIN_GAMMA :: real where "MIN_GAMMA = 0.5"
definition MAX_GAMMA :: real where "MAX_GAMMA = 3.0"
definition DEFAULT_GAMMA :: real where "DEFAULT_GAMMA = 2.0"

definition gammaValueFromSlider :: "real \<Rightarrow> real" where
  "gammaValueFromSlider v = MIN_GAMMA + v * (MAX_GAMMA - MIN_GAMMA) / 100"

definition sliderValueFromGamma :: "real \<Rightarrow> real" where
  "sliderValueFromGamma g = (g - MIN_GAMMA) * 100 / (MAX_GAMMA - MIN_GAMMA)"

text \<open>
  The gamma value of the second listing, which \<^verbatim>\<open>updateSliderDisplay\<close> shows next to
  the slider: \<^verbatim>\<open>slider.value / 100.0\<close>.
\<close>

definition gammaDisplay_2 :: "real \<Rightarrow> real" where
  "gammaDisplay_2 v = v / 100"

text \<open>
  \<^verbatim>\<open>updateGamma()\<close> of the first listing, with the slider value. The retransmission of
  the current image starts a request whose response is handled later, by
  \<open>sendGifAnimation\<close>.
\<close>

definition updateGamma :: "real \<Rightarrow> session \<Rightarrow> session" where
  "updateGamma v st = st\<lparr>gammaTable := build_table (gammaValueFromSlider v)\<rparr>"

text \<open>
  \<^verbatim>\<open>updateGamma()\<close> of the second listing: the exponent is \<^verbatim>\<open>100.0 / slider\<close>, which is
  infinite at slider value 0; then every base below 1 gives 0 and the base 1 gives a
  number that is not finite. The current image, when there is one, is sent at once.
\<close>

definition build_table_2 :: "real \<Rightarrow> int option list" where
  "build_table_2 v = (if v = 0 then replicate 255 (Some 0) @ [None] else build_table (100 / v))"

definition updateGamma_2 ::
  "real \<Rightarrow> image option \<Rightarrow> (image \<Rightarrow> nat list \<Rightarrow> nat list) \<Rightarrow> nat list \<Rightarrow> session action" where
  "updateGamma_2 v currentImage drawImage canvas st =
     (let st' = st\<lparr>gammaTable := build_table_2 v\<rparr>
      in case currentImage of
           None \<Rightarrow> (None, st')
         | Some img \<Rightarrow> sendImage_2 drawImage img canvas st')"

text \<open>A grid of 16 rows of 16 cells, whatever the cells hold.\<close>

definition grid16 :: "cell list list \<Rightarrow> bool" where
  "grid16 px = (length px = 16 \<and> list_all (\<lambda>row. length row = 16) px)"

text \<open>
  Two frames of a GIF: one that covers the whole screen with one colour and one whose
  patch is the single pixel at the top left corner.
\<close>

definition full_frame :: gifFrame where
  "full_frame = \<lparr>patch = replicate 1024 200, dims_top = 0, dims_left = 0,
     dims_width = 16, dims_height = 16, delay = Some 100\<rparr>"

definition dot_frame :: gifFrame where
  "dot_frame = \<lparr>patch = [1, 2, 3, 255], dims_top = 0, dims_left = 0,
     dims_width = 1, dims_height = 1, delay = Some 100\<rparr>"

text \<open>
  Two GIFs with a logical screen of 16 by 16 pixels: one with the full frame alone, one
  with the full frame followed by the one-pixel frame.
\<close>

definition one_frame_gif :: gif where
  "one_frame_gif = \<lparr>lsd_width = 16, lsd_height = 16, decompressFrames = Some [full_frame]\<rparr>"

definition two_frame_gif :: gif where
  "two_frame_gif = \<lparr>lsd_width = 16, lsd_height = 16,
     decompressFrames = Some [full_frame, dot_frame]\<rparr>"


definition blank_canvas :: "nat list" where
  "blank_canvas = replicate 1024 0"


section \<open>Properties\<close>

lemma writeToStream_open:
  "outputStream st \<Longrightarrow>
     writeToStream ls st = (None, st\<lparr>written := written st @ terminated ls\<rparr>)"
  by (simp add: writeToStream_def terminated_def)

lemma forEach_rows_open:
  "outputStream st \<Longrightarrow>
     forEach (\<lambda>row. writeToStream [''RGB '' @ row]) rs st
       = (None, st\<lparr>written := written st @ terminated (map (\<lambda>row. ''RGB '' @ row) rs)\<rparr>)"
proof (induction rs arbitrary: st)
  case Nil
  then show ?case by (simp add: terminated_def)
next
  case (Cons r rs)
  then show ?case
    by (simp add: andThen_def writeToStream_open terminated_def)
qed

lemma sendFrame_open:
  "outputStream st \<Longrightarrow>
     sendFrame f st = (None, st\<lparr>written := written st @ terminated (frame_lines f)\<rparr>)"
proof -
  assume op: "outputStream st"
  let ?st1 = "st\<lparr>written := written st
                 @ terminated [''FRM '' @ number_toString 10 (frame_duration f)]\<rparr>"
  have "outputStream ?st1" using op by simp
  from forEach_rows_open [OF this, of "rows f"] writeToStream_open [OF op]
  show ?thesis
    by (simp add: sendFrame_def andThen_def frame_lines_def terminated_def)
qed

lemma forEach_frames_open:
  "outputStream st \<Longrightarrow>
     forEach sendFrame fs st
       = (None, st\<lparr>written := written st @ terminated (concat (map frame_lines fs))\<rparr>)"
proof (induction fs arbitrary: st)
  case Nil
  then show ?case by (simp add: terminated_def)
next
  case (Cons f fs)
  then show ?case
    by (simp add: andThen_def sendFrame_open terminated_def)
qed

lemma length_frame_lines: "length (frame_lines f) = 1 + length (rows f)"
  by (simp add: frame_lines_def)

lemma length_concat_frame_lines:
  "\<forall>f \<in> set fs. length (rows f) = 16 \<Longrightarrow>
     length (concat (map frame_lines fs)) = length fs * 17"
  by (induction fs) (simp_all add: length_frame_lines)

text \<open>
  C1. On an open output stream, sending an animation of \<open>F \<ge> 1\<close> frames with 16 rows each
  appends to the stream exactly the newline-terminated lines \<open>ANM d\<close>, then per frame in
  insertion order \<open>FRM d\<close> and its 16 \<open>RGB row\<close> lines in row order, then \<open>DON\<close> and
  \<open>NXT\<close>: \<open>1 + F * (1 + 16) + 2\<close> lines and nothing else; the call completes and changes
  nothing but the stream.
\<close>

theorem sendAnimation_lines:
  assumes "outputStream st"
    and "frames anim \<noteq> []"
    and "\<forall>f \<in> set (frames anim). length (rows f) = 16"
  shows "sendAnimation anim st
           = (None, st\<lparr>written := written st @ terminated (animation_lines anim)\<rparr>)
         \<and> length (terminated (animation_lines anim)) = 1 + length (frames anim) * (1 + 16) + 2"
proof
  show "sendAnimation anim st
          = (None, st\<lparr>written := written st @ terminated (animation_lines anim)\<rparr>)"
    using assms(1)
    by (simp add: sendAnimation_def andThen_def writeToStream_open forEach_frames_open
        animation_lines_def terminated_def)
  show "length (terminated (animation_lines anim)) = 1 + length (frames anim) * (1 + 16) + 2"
    using length_concat_frame_lines [OF assms(3)]
    by (simp add: terminated_def animation_lines_def)
qed

theorem sendAnimation_lines_witness:
  "outputStream open_session
   \<and> frames white_animation \<noteq> []
   \<and> list_all (\<lambda>f. length (rows f) = 16) (frames white_animation)
   \<and> sendAnimation white_animation open_session
       = (None, open_session\<lparr>written := written open_session
                                  @ terminated (animation_lines white_animation)\<rparr>)
   \<and> length (terminated (animation_lines white_animation)) = 20"
  using sendAnimation_lines [of open_session white_animation]
  by (simp add: open_session_def white_animation_def white_frame_def)

subsection \<open>The frame encoder\<close>

lemma or_pack_int:
  fixes a b c :: int
  assumes "0 \<le> b" "b < 256" "0 \<le> c" "c < 256"
  shows "push_bit 16 a OR push_bit 8 b OR c = a * 65536 + b * 256 + c"
proof -
  have b: "take_bit 8 b = b" using assms by (simp add: take_bit_int_eq_self)
  have c: "take_bit 8 c = c" using assms by (simp add: take_bit_int_eq_self)
  have 1: "push_bit 8 (take_bit 8 b) + take_bit 8 c = push_bit 8 (take_bit 8 b) OR take_bit 8 c"
    by (rule disjunctive_add) (auto simp: bit_simps)
  have 2: "push_bit 16 a + (push_bit 8 (take_bit 8 b) OR take_bit 8 c)
          = push_bit 16 a OR (push_bit 8 (take_bit 8 b) OR take_bit 8 c)"
    by (rule disjunctive_add) (auto simp: bit_simps)
  from 1 2 show ?thesis
    by (simp add: b c push_bit_eq_mult or.assoc)
qed

lemma pack_word:
  fixes a b c :: int
  assumes "0 \<le> a" "a < 256" "0 \<le> b" "b < 256" "0 \<le> c" "c < 256"
  shows "sint (push_bit 16 (word_of_int a :: 32 word) OR push_bit 8 (word_of_int b) OR word_of_int c)
         = a * 65536 + b * 256 + c"
proof -
  have "push_bit 16 (word_of_int a :: 32 word) OR push_bit 8 (word_of_int b) OR word_of_int c
        = word_of_int (push_bit 16 a OR push_bit 8 b OR c)"
    by (simp add: push_bit_of_int word_wi_log_defs(3))
  also have "\<dots> = word_of_int (a * 65536 + b * 256 + c)"
    by (simp only: or_pack_int [OF assms(3-6)])
  finally have w: "push_bit 16 (word_of_int a :: 32 word) OR push_bit 8 (word_of_int b)
      OR word_of_int c = word_of_int (a * 65536 + b * 256 + c)" .
  have "- (2 ^ 31) \<le> a * 65536 + b * 256 + c" "a * 65536 + b * 256 + c < 2 ^ 31"
    using assms by auto
  then have "signed_take_bit 31 (a * 65536 + b * 256 + c) = a * 65536 + b * 256 + c"
    by (rule signed_take_bit_int_eq_self)
  then show ?thesis
    unfolding w sint_sbintrunc' by simp
qed

lemma padStart_zero: "padStart k ''0'' s = replicate (k - length s) CHR ''0'' @ s"
proof -
  have "take m (concat (replicate m ''0'')) = replicate m CHR ''0''" for m
    by (induction m) simp_all
  then show ?thesis by (simp add: padStart_def)
qed

lemma hex_fixed_zero: "hex_fixed digit_char k 0 = replicate k CHR ''0''"
  by (induction k) (simp_all add: replicate_append_same digit_char_def)

lemma digit_char_0: "digit_char 0 = CHR ''0''"
  by (simp add: digit_char_def)

lemma length_radix_digits: "n < 16 ^ k \<Longrightarrow> 0 < k \<Longrightarrow> length (radix_digits 16 n) \<le> k"
proof (induction k arbitrary: n)
  case 0
  then show ?case by simp
next
  case (Suc k)
  show ?case
  proof (cases "n < 16")
    case True
    then show ?thesis by (subst radix_digits.simps) simp
  next
    case False
    with Suc.prems have "n div 16 < 16 ^ k" "0 < k"
      by (auto simp: less_mult_imp_div_less mult.commute intro: Suc_lessI gr0I)
    from Suc.IH [OF this] False show ?thesis
      by (subst radix_digits.simps) simp
  qed
qed

lemma padded_radix_digits:
  "n < 16 ^ k \<Longrightarrow> 0 < k \<Longrightarrow> padStart k ''0'' (radix_digits 16 n) = hex_fixed digit_char k n"
proof (induction k arbitrary: n)
  case 0
  then show ?case by simp
next
  case (Suc k)
  show ?case
  proof (cases "n < 16")
    case True
    then have "radix_digits 16 n = [digit_char n]"
      by (subst radix_digits.simps) simp
    with True show ?thesis
      by (simp add: padStart_zero hex_fixed_zero)
  next
    case False
    with Suc.prems have small: "n div 16 < 16 ^ k" and pos: "0 < k"
      by (auto simp: less_mult_imp_div_less mult.commute intro: Suc_lessI gr0I)
    have unfold: "radix_digits 16 n = radix_digits 16 (n div 16) @ [digit_char (n mod 16)]"
      using False by (subst radix_digits.simps) simp
    have "length (radix_digits 16 (n div 16)) \<le> k"
      by (rule length_radix_digits [OF small pos])
    then have "padStart (Suc k) ''0'' (radix_digits 16 n)
                 = padStart k ''0'' (radix_digits 16 (n div 16)) @ [digit_char (n mod 16)]"
      by (simp add: padStart_zero unfold Suc_diff_le)
    with Suc.IH [OF small pos] show ?thesis by simp
  qed
qed

lemma upper_digits: "map toUpperCase_char ''0123456789abcdef'' = ''0123456789ABCDEF''"
  by (simp add: toUpperCase_char_def)

lemma upper_digit: "toUpperCase_char (digit_char d) = upper_hex_digit d"
proof -
  have "toUpperCase_char (''0123456789abcdef'' ! (d mod 16))
          = map toUpperCase_char ''0123456789abcdef'' ! (d mod 16)"
    by (rule nth_map [symmetric]) simp
  then show ?thesis
    by (simp only: upper_digits digit_char_def upper_hex_digit_def)
qed

lemma upper_hex_fixed: "toUpperCase (hex_fixed digit_char k n) = hex_fixed upper_hex_digit k n"
  by (induction k arbitrary: n) (simp_all add: toUpperCase_def upper_digit)

lemma hex_fixed_6: "hex_fixed upper_hex_digit 6 n = hex6 n"
proof -
  have six: "(6::nat) = Suc (Suc (Suc (Suc (Suc (Suc 0)))))" by simp
  have "hex_fixed upper_hex_digit (Suc (Suc (Suc (Suc (Suc (Suc 0)))))) n = hex6 n"
    by (simp add: hex6_def div_mult2_eq [symmetric])
  then show ?thesis by (simp only: six)
qed

lemma is_upper_hex_digit: "is_upper_hex (upper_hex_digit d)"
proof -
  have "d mod 16 < 16" by simp
  then have "d mod 16 \<in> {0, 1, 2, 3, 4, 5, 6, 7, 8, 9, 10, 11, 12, 13, 14, 15}"
    by simp arith
  then show ?thesis
    by (auto simp: is_upper_hex_def upper_hex_digit_def)
qed

lemma hex6_props: "length (hex6 v) = 6" "list_all is_upper_hex (hex6 v)"
  by (simp_all add: hex6_def is_upper_hex_digit)

lemma paddedHex_hex6: "0 \<le> v \<Longrightarrow> v < 2 ^ 24 \<Longrightarrow> paddedHex v 6 = hex6 (nat v)"
proof -
  assume v: "0 \<le> v" "v < 2 ^ 24"
  then have "nat v < 16 ^ 6" by simp
  from padded_radix_digits [OF this] v show ?thesis
    by (simp add: paddedHex_def number_toString_def upper_hex_fixed hex_fixed_6)
qed

lemma traverse_total: "(\<And>x. x \<in> set xs \<Longrightarrow> f x = Inr (g x)) \<Longrightarrow> traverse f xs = Inr (map g xs)"
  by (induction xs) simp_all

lemma corrected_value:
  assumes "table_ok tbl" "channel_ok ch"
  shows "\<exists>v. table_at tbl ch = Some v \<and> 0 \<le> v \<and> v < 256 \<and> int (corrected tbl ch) = v"
proof -
  from assms(2) obtain i where ch: "ch = Some i" and i: "i \<le> 255"
    by (auto simp: channel_ok_def split: option.splits)
  from assms(1) i have len: "i < length tbl" by (simp add: table_ok_def)
  with assms(1) have "case tbl ! i of None \<Rightarrow> False | Some v \<Rightarrow> 0 \<le> v \<and> v \<le> 255"
    by (simp add: table_ok_def list_all_length)
  then obtain v where "tbl ! i = Some v" "0 \<le> v" "v \<le> 255"
    by (auto split: option.splits)
  with ch len show ?thesis
    by (simp add: table_at_def corrected_def)
qed

lemma encode_cell_ok:
  assumes "table_ok tbl" "cell_ok c"
  shows "encode_cell tbl c = Inr (group_of tbl c)"
proof -
  from assms(2) obtain r g b where c: "c = Rgb r g b"
    and ok: "channel_ok r" "channel_ok g" "channel_ok b"
    by (auto simp: cell_ok_def split: cell.splits)
  from corrected_value [OF assms(1) ok(1)] obtain x
    where x: "table_at tbl r = Some x" "0 \<le> x" "x < 256" "int (corrected tbl r) = x" by blast
  from corrected_value [OF assms(1) ok(2)] obtain y
    where y: "table_at tbl g = Some y" "0 \<le> y" "y < 256" "int (corrected tbl g) = y" by blast
  from corrected_value [OF assms(1) ok(3)] obtain z
    where z: "table_at tbl b = Some z" "0 \<le> z" "z < 256" "int (corrected tbl b) = z" by blast
  have pv: "pixel_value tbl r g b = x * 65536 + y * 256 + z"
    using pack_word [OF x(2,3) y(2,3) z(2,3)]
    by (simp add: pixel_value_def ToInt32_def x(1) y(1) z(1))
  have "nat (x * 65536 + y * 256 + z) = corrected tbl r * 2 ^ 16 + corrected tbl g * 2 ^ 8 + corrected tbl b"
    using x(2,4) y(2,4) z(2,4) by (simp add: nat_add_distrib nat_mult_distrib) 
  moreover have "0 \<le> x * 65536 + y * 256 + z" "x * 65536 + y * 256 + z < 2 ^ 24"
    using x y z by auto
  ultimately show ?thesis
    using paddedHex_hex6 [of "x * 65536 + y * 256 + z"]
    by (simp add: encode_cell_def c pv group_of_def)
qed

lemma group_of_props:
  "cell_ok c \<Longrightarrow> length (group_of tbl c) = 6"
  "cell_ok c \<Longrightarrow> list_all is_upper_hex (group_of tbl c)"
  by (auto simp: cell_ok_def group_of_def hex6_props split: cell.splits)

lemma encode_row_ok:
  assumes "table_ok tbl" "list_all cell_ok row"
  shows "encode_row tbl row = Inr (concat (map (group_of tbl) row))"
proof -
  have "traverse (encode_cell tbl) row = Inr (map (group_of tbl) row)"
    using assms by (intro traverse_total encode_cell_ok) (simp_all add: list_all_iff)
  then show ?thesis by (simp add: encode_row_def)
qed

lemma new_Frame_ok:
  assumes "table_ok tbl" "grid_ok pixels"
  shows "new_Frame tbl ms pixels
           = Inr \<lparr>frame_duration = ms, rows = map (\<lambda>row. concat (map (group_of tbl) row)) pixels\<rparr>"
proof -
  have "traverse (encode_row tbl) pixels = Inr (map (\<lambda>row. concat (map (group_of tbl) row)) pixels)"
    using assms by (intro traverse_total encode_row_ok) (simp_all add: grid_ok_def list_all_iff)
  then show ?thesis by (simp add: new_Frame_def)
qed

lemma length_concat_groups:
  "list_all (\<lambda>x. length (g x) = n) xs \<Longrightarrow> length (concat (map g xs)) = n * length xs"
  by (induction xs) simp_all

lemma group_at:
  "list_all (\<lambda>x. length (g x) = n) xs \<Longrightarrow> j < length xs \<Longrightarrow>
     take n (drop (n * j) (concat (map g xs))) = g (xs ! j)"
proof (induction xs arbitrary: j)
  case Nil
  then show ?case by simp
next
  case (Cons x xs)
  show ?case
  proof (cases j)
    case 0
    with Cons.prems show ?thesis by simp
  next
    case (Suc k)
    with Cons.prems have "take n (drop (n * k) (concat (map g xs))) = g (xs ! k)"
      by (intro Cons.IH) simp_all
    with Cons.prems Suc show ?thesis by simp
  qed
qed

lemma list_all_concat: "list_all (\<lambda>x. list_all P (g x)) xs \<Longrightarrow> list_all P (concat (map g xs))"
  by (induction xs) simp_all

text \<open>
  C2. For a 16 by 16 grid of RGB triples with every channel in \<open>[0, 255]\<close> and a gamma
  table of 256 entries in \<open>[0, 255]\<close>, the constructor of \<open>Frame\<close> succeeds; the frame
  has exactly 16 row strings, each of exactly 96 upper-case hexadecimal characters, and
  the six characters of pixel \<open>j\<close> of row \<open>i\<close> are the value
  \<open>table[R] << 16 | table[G] << 8 | table[B]\<close> of that pixel, zero-padded to six digits.
\<close>

theorem Frame_encoding:
  assumes "grid_ok pixels" and "table_ok tbl"
  shows "\<exists>f. new_Frame tbl ms pixels = Inr f
            \<and> frame_duration f = ms
            \<and> length (rows f) = 16
            \<and> (\<forall>i < 16. length (rows f ! i) = 96
                  \<and> list_all is_upper_hex (rows f ! i)
                  \<and> (\<forall>j < 16. take 6 (drop (6 * j) (rows f ! i)) = group_of tbl (pixels ! i ! j)))"
proof -
  let ?row = "\<lambda>row. concat (map (group_of tbl) row)"
  let ?f = "\<lparr>frame_duration = ms, rows = map ?row pixels\<rparr>"
  have len: "length pixels = 16" using assms(1) by (simp add: grid_ok_def)
  have rows_ok: "length (pixels ! i) = 16 \<and> list_all cell_ok (pixels ! i)" if "i < 16" for i
    using assms(1) that by (simp add: grid_ok_def list_all_length)
  have "length (?row (pixels ! i)) = 96
        \<and> list_all is_upper_hex (?row (pixels ! i))
        \<and> (\<forall>j < 16. take 6 (drop (6 * j) (?row (pixels ! i))) = group_of tbl (pixels ! i ! j))"
    if i: "i < 16" for i
  proof -
    from rows_ok [OF i] have l: "length (pixels ! i) = 16" and ok: "list_all cell_ok (pixels ! i)"
      by simp_all
    from ok have six: "list_all (\<lambda>c. length (group_of tbl c) = 6) (pixels ! i)"
      by (simp add: list_all_iff group_of_props)
    from ok have hex: "list_all (\<lambda>c. list_all is_upper_hex (group_of tbl c)) (pixels ! i)"
      by (rule list.pred_mono_strong) (rule group_of_props)
    show ?thesis
      using length_concat_groups [OF six] list_all_concat [OF hex] group_at [OF six] l
      by simp
  qed
  then show ?thesis
    using new_Frame_ok [OF assms(2,1), of ms] len by simp
qed

theorem Frame_encoding_witness:
  "grid_ok orange_grid \<and> table_ok identity_table
   \<and> (\<exists>f. new_Frame identity_table 1000 orange_grid = Inr f
          \<and> frame_duration f = 1000
          \<and> length (rows f) = 16
          \<and> length (rows f ! 0) = 96
          \<and> list_all is_upper_hex (rows f ! 0)
          \<and> take 6 (drop (6 * 0) (rows f ! 0)) = ''FF8000'')"
proof -
  have g: "grid_ok orange_grid"
    by (simp add: grid_ok_def orange_grid_def cell_ok_def channel_ok_def list_all_iff)
  have t: "table_ok identity_table"
    by (auto simp: table_ok_def identity_table_def list_all_iff)
  have v: "group_of identity_table (orange_grid ! 0 ! 0) = ''FF8000''"
    by (simp add: orange_grid_def group_of_def corrected_def identity_table_def hex6_def
        upper_hex_digit_def)
  from Frame_encoding [OF g t, of 1000] v g t show ?thesis
    by fastforce
qed

subsection \<open>The digit clock at 14:05\<close>

lemma upt_5: "[0..<5] = [0, 1, 2, 3, 4]"
  by code_simp

lemma glyph_rows_1405:
  "traverse (\<lambda>r. digitRowIterator r 1 4 0 5 fg bg colon) [0..<DIGIT_ROWS]
     = Inr [[bg,fg,bg, bg, fg,bg,fg, bg,bg, fg,fg,fg, bg, fg,fg,fg],
            [fg,fg,bg, bg, fg,bg,fg, colon,colon, fg,bg,fg, bg, fg,bg,bg],
            [bg,fg,bg, bg, fg,fg,fg, bg,bg, fg,bg,fg, bg, fg,fg,bg],
            [bg,fg,bg, bg, bg,bg,fg, colon,colon, fg,bg,fg, bg, bg,bg,fg],
            [fg,fg,fg, bg, bg,bg,fg, bg,bg, fg,fg,fg, bg, fg,fg,bg]]"
  by (simp add: DIGIT_ROWS_def upt_5 digitRowIterator_def glyph_row_def Digits_def
      bitmapRowIterator_def)

lemma lt16: "(n::nat) < 16 \<Longrightarrow> n \<in> {0, 1, 2, 3, 4, 5, 6, 7, 8, 9, 10, 11, 12, 13, 14, 15}"
  by simp arith

lemma clock_grid_1405:
  "digitalClockIterator 1 4 0 5 fg bg colon
     = Inr (replicate 5 (replicate 16 bg) @
           [[bg,fg,bg, bg, fg,bg,fg, bg,bg, fg,fg,fg, bg, fg,fg,fg],
            [fg,fg,bg, bg, fg,bg,fg, colon,colon, fg,bg,fg, bg, fg,bg,bg],
            [bg,fg,bg, bg, fg,fg,fg, bg,bg, fg,bg,fg, bg, fg,fg,bg],
            [bg,fg,bg, bg, bg,bg,fg, colon,colon, fg,bg,fg, bg, bg,bg,fg],
            [fg,fg,fg, bg, bg,bg,fg, bg,bg, fg,fg,fg, bg, fg,fg,bg]]
           @ replicate 6 (replicate 16 bg))"
  by (simp only: digitalClockIterator_def glyph_rows_1405)
     (simp add: fillRowIterator_def COLS_def ROWS_def CLOCK_VERTICAL_OFFSET_def DIGIT_ROWS_def)

text \<open>
  C10. For the digits 1, 4, 0, 5 and a colon colour different from the background, the
  rasterizer yields two grids of 16 rows of 16 cells that agree at every cell except the
  colon columns (7 and 8) of the odd glyph rows (glyph rows 1 and 3, grid rows 6 and 8),
  where the grid with the colon holds the colon colour and the other one the background.
\<close>

theorem clock_1405:
  assumes "colon \<noteq> bg"
  shows "\<exists>shown hidden.
           digitalClockIterator 1 4 0 5 fg bg colon = Inr shown
         \<and> digitalClockIterator 1 4 0 5 fg bg bg = Inr hidden
         \<and> length shown = 16 \<and> length hidden = 16
         \<and> (\<forall>r < 16. length (shown ! r) = 16 \<and> length (hidden ! r) = 16
               \<and> (\<forall>c < 16.
                     if (r = 6 \<or> r = 8) \<and> (c = 7 \<or> c = 8)
                     then shown ! r ! c = colon \<and> hidden ! r ! c = bg
                          \<and> shown ! r ! c \<noteq> hidden ! r ! c
                     else shown ! r ! c = hidden ! r ! c))"
proof -
  let ?g = "\<lambda>k. replicate 5 (replicate 16 bg) @
           [[bg,fg,bg, bg, fg,bg,fg, bg,bg, fg,fg,fg, bg, fg,fg,fg],
            [fg,fg,bg, bg, fg,bg,fg, k,k, fg,bg,fg, bg, fg,bg,bg],
            [bg,fg,bg, bg, fg,fg,fg, bg,bg, fg,bg,fg, bg, fg,fg,bg],
            [bg,fg,bg, bg, bg,bg,fg, k,k, fg,bg,fg, bg, bg,bg,fg],
            [fg,fg,fg, bg, bg,bg,fg, bg,bg, fg,fg,fg, bg, fg,fg,bg]]
           @ replicate 6 (replicate 16 bg)"
  have rows: "length (?g k ! r) = 16" if "r < 16" for r k
    using lt16 [OF that] by (auto simp: nth_append)
  have cells: "if (r = 6 \<or> r = 8) \<and> (c = 7 \<or> c = 8)
        then ?g colon ! r ! c = colon \<and> ?g bg ! r ! c = bg \<and> ?g colon ! r ! c \<noteq> ?g bg ! r ! c
        else ?g colon ! r ! c = ?g bg ! r ! c" if "r < 16" "c < 16" for r c
  proof (cases "r = 6 \<or> r = 8")
    case True
    then show ?thesis
      using lt16 [OF that(2)] assms by (auto simp: nth_append)
  next
    case False
    then show ?thesis
      using lt16 [OF that(1)] by (auto simp: nth_append)
  qed
  have main: "\<forall>r < 16. length (?g colon ! r) = 16 \<and> length (?g bg ! r) = 16
               \<and> (\<forall>c < 16.
                     if (r = 6 \<or> r = 8) \<and> (c = 7 \<or> c = 8)
                     then ?g colon ! r ! c = colon \<and> ?g bg ! r ! c = bg
                          \<and> ?g colon ! r ! c \<noteq> ?g bg ! r ! c
                     else ?g colon ! r ! c = ?g bg ! r ! c)"
    using rows cells by blast
  have lens: "length (?g colon) = 16" "length (?g bg) = 16"
    by simp_all
  show ?thesis
    by (rule exI [of _ "?g colon"], rule exI [of _ "?g bg"])
       (intro conjI clock_grid_1405 lens main)
qed


theorem clock_1405_witness:
  "clock_colon \<noteq> clock_bg
   \<and> (\<exists>shown hidden.
           digitalClockIterator 1 4 0 5 clock_fg clock_bg clock_colon = Inr shown
         \<and> digitalClockIterator 1 4 0 5 clock_fg clock_bg clock_bg = Inr hidden
         \<and> length shown = 16 \<and> length hidden = 16
         \<and> shown ! 6 ! 7 = clock_colon \<and> hidden ! 6 ! 7 = clock_bg
         \<and> shown ! 7 ! 7 = hidden ! 7 ! 7)"
proof -
  have ne: "clock_colon \<noteq> clock_bg"
    by (simp add: clock_colon_def clock_bg_def)
  from clock_1405 [OF ne, of clock_fg] obtain shown hidden
    where grids: "digitalClockIterator 1 4 0 5 clock_fg clock_bg clock_colon = Inr shown"
      "digitalClockIterator 1 4 0 5 clock_fg clock_bg clock_bg = Inr hidden"
      "length shown = 16" "length hidden = 16"
    and cells: "\<forall>r < 16. length (shown ! r) = 16 \<and> length (hidden ! r) = 16
               \<and> (\<forall>c < 16.
                     if (r = 6 \<or> r = 8) \<and> (c = 7 \<or> c = 8)
                     then shown ! r ! c = clock_colon \<and> hidden ! r ! c = clock_bg
                          \<and> shown ! r ! c \<noteq> hidden ! r ! c
                     else shown ! r ! c = hidden ! r ! c)"
    by blast
  note at = cells [rule_format, THEN conjunct2, THEN conjunct2, rule_format]
  have "shown ! 6 ! 7 = clock_colon \<and> hidden ! 6 ! 7 = clock_bg"
    using at [of 6 7] by simp
  moreover have "shown ! 7 ! 7 = hidden ! 7 ! 7"
    using at [of 7 7] by simp
  ultimately show ?thesis
    using ne grids by blast
qed

subsection \<open>Line framing\<close>

lemma split_on_nonempty: "split_on d s \<noteq> []"
  by (induction d s rule: split_on.induct)
     (auto simp: split_on.simps(2) cons_first_def split: list.splits)

lemma split_on_short: "length s < length d \<Longrightarrow> split_on d s = [s]"
proof (induction s)
  case Nil
  then show ?case by simp
next
  case (Cons c cs)
  then have "\<not> prefix d (c # cs)"
    by (auto dest: prefix_length_le)
  with Cons show ?case by (simp add: split_on.simps(2) cons_first_def)
qed

lemma split_on_single: "length (split_on d s) = 1 \<Longrightarrow> split_on d s = [s]"
proof (induction s)
  case Nil
  then show ?case by simp
next
  case (Cons c cs)
  have ne: "split_on d cs \<noteq> []" by (rule split_on_nonempty)
  show ?case
  proof (cases "d \<noteq> [] \<and> prefix d (c # cs)")
    case True
    with Cons.prems split_on_nonempty [of d "drop (length d) (c # cs)"] show ?thesis
      by (simp add: split_on.simps(2))
  next
    case False
    with Cons.prems ne have "length (split_on d cs) = 1"
      by (auto simp: split_on.simps(2) cons_first_def split: list.splits)
    from Cons.IH [OF this] False show ?thesis
      by (auto simp: split_on.simps(2) cons_first_def)
  qed
qed

lemma cons_first_butlast_last:
  "segs \<noteq> [] \<Longrightarrow> butlast (cons_first c segs) @ split_on d (last (cons_first c segs) @ s2)
     = (if length segs = 1 then split_on d (c # (last segs @ s2))
        else cons_first c (butlast segs @ split_on d (last segs @ s2)))"
  by (cases segs) (auto simp: cons_first_def split: list.splits)

lemma split_on_append:
  assumes "d \<noteq> []"
  shows "split_on d (s1 @ s2)
           = butlast (split_on d s1) @ split_on d (last (split_on d s1) @ s2)"
  using assms
proof (induction d s1 rule: split_on.induct)
  case (1 d)
  then show ?case by simp
next
  case (2 d c cs)
  show ?case
  proof (cases "prefix d (c # cs)")
    case True
    then have app: "prefix d (c # cs @ s2)"
      by (metis append_Cons prefix_prefix)
    have "length d - length (c # cs) = 0"
      using prefix_length_le [OF True] by simp
    then have "drop (length d) ((c # cs) @ s2) = drop (length d) (c # cs) @ s2"
      by (simp only: drop_append drop_0)
    then have dr: "drop (length d) (c # cs @ s2) = drop (length d) (c # cs) @ s2"
      by simp
    from 2(1) [OF _ \<open>d \<noteq> []\<close>] True \<open>d \<noteq> []\<close>
    have IH: "split_on d (drop (length d) (c # cs) @ s2)
          = butlast (split_on d (drop (length d) (c # cs)))
            @ split_on d (last (split_on d (drop (length d) (c # cs))) @ s2)"
      by simp
    show ?thesis
      using True app \<open>d \<noteq> []\<close> IH dr split_on_nonempty [of d "drop (length d) (c # cs)"]
      by (simp add: split_on.simps(2))
  next
    case False
    show ?thesis
    proof (cases "prefix d (c # cs @ s2)")
      case True
      then have "prefix d ((c # cs) @ s2)" by simp
      with False obtain us where "d = (c # cs) @ us"
        unfolding prefix_append by blast
      with False have "length (c # cs) < length d"
        by (cases us) auto
      from split_on_short [OF this] show ?thesis by simp
    next
      case nopre: False
      from 2(2) [OF _ \<open>d \<noteq> []\<close>] False
      have IH: "split_on d (cs @ s2) = butlast (split_on d cs) @ split_on d (last (split_on d cs) @ s2)"
        by simp
      have ne: "split_on d cs \<noteq> []" by (rule split_on_nonempty)
      have lhs: "split_on d ((c # cs) @ s2) = cons_first c (split_on d (cs @ s2))"
        using nopre by (simp add: split_on.simps(2))
      have rhs: "split_on d (c # cs) = cons_first c (split_on d cs)"
        using False by (simp add: split_on.simps(2))
      show ?thesis
      proof (cases "length (split_on d cs) = 1")
        case True
        then have "split_on d cs = [cs]" by (rule split_on_single)
        then have "split_on d (c # cs) = [c # cs]"
          unfolding rhs by (simp add: cons_first_def)
        then show ?thesis by simp
      next
        case False
        then show ?thesis
          unfolding lhs rhs cons_first_butlast_last [OF ne] IH by simp
      qed
    qed
  qed
qed

lemma feed_split:
  assumes "d \<noteq> []"
  shows "feed (transform_on d) chunks \<lparr>container = last (split_on d s)\<rparr>
             (out @ butlast (split_on d s))
           = (\<lparr>container = last (split_on d (s @ concat chunks))\<rparr>,
              out @ butlast (split_on d (s @ concat chunks)))"
proof (induction chunks arbitrary: s out)
  case Nil
  show ?case by simp
next
  case (Cons chunk chunks)
  let ?s' = "last (split_on d s) @ chunk"
  have key: "split_on d (s @ chunk @ concat chunks)
               = butlast (split_on d s) @ split_on d (?s' @ concat chunks)"
    using split_on_append [OF assms, of s "chunk @ concat chunks"] by simp
  have ne: "split_on d (?s' @ concat chunks) \<noteq> []" by (rule split_on_nonempty)
  from key ne have l: "last (split_on d (s @ chunk @ concat chunks))
                         = last (split_on d (?s' @ concat chunks))"
    by simp
  from key ne have b: "butlast (split_on d (s @ chunk @ concat chunks))
                         = butlast (split_on d s) @ butlast (split_on d (?s' @ concat chunks))"
    by (simp add: butlast_append)
  from Cons.IH [of ?s' "out @ butlast (split_on d s)"] show ?case
    by (simp add: transform_on_def Let_def l b)
qed

lemma received_split:
  assumes "d \<noteq> []"
  shows "received (transform_on d) chunks = split_on d (concat chunks)"
proof -
  have "feed (transform_on d) chunks \<lparr>container = last (split_on d [])\<rparr>
             ([] @ butlast (split_on d []))
           = (\<lparr>container = last (split_on d ([] @ concat chunks))\<rparr>,
              [] @ butlast (split_on d ([] @ concat chunks)))"
    by (rule feed_split [OF assms])
  then show ?thesis
    using split_on_nonempty [of d "concat chunks"]
    by (simp add: received_def new_LineBreakTransformer_def flush_def)
qed

lemma split_on_line:
  "\<not> occurs_in d l \<Longrightarrow> split_on d l = [l]"
  by (induction l) (auto simp: split_on.simps(2) cons_first_def)

lemma split_on_first_line:
  assumes "d \<noteq> []"
    and sep: "\<And>c cs. \<not> prefix d (c # cs) \<Longrightarrow> \<not> occurs_in d cs \<Longrightarrow> \<not> prefix d (c # cs @ d @ rest)"
  shows "\<not> occurs_in d l \<Longrightarrow> split_on d (l @ d @ rest) = l # split_on d rest"
proof (induction l)
  case Nil
  with assms(1) show ?case
    by (cases d) (simp_all add: split_on.simps(2))
next
  case (Cons c cs)
  then have "\<not> prefix d (c # cs)" "\<not> occurs_in d cs" by simp_all
  from sep [OF this] Cons.IH [OF this(2)] show ?case
    by (simp add: split_on.simps(2) cons_first_def)
qed

lemma delimiter_sep:
  "\<not> prefix delimiter (c # cs) \<Longrightarrow> \<not> prefix delimiter (c # cs @ delimiter @ rest)"
  by (simp add: delimiter_def)

lemma delimiter_2_sep:
  "\<not> prefix delimiter_2 (c # cs) \<Longrightarrow> \<not> prefix delimiter_2 (c # cs @ delimiter_2 @ rest)"
  by (cases cs) (auto simp: delimiter_2_def newline_def carriage_return_def)

lemma join_Cons: "rest \<noteq> [] \<Longrightarrow> join d (l # rest) = l @ d @ join d rest"
  by (cases rest) (simp_all add: join_def)

lemma split_on_join:
  assumes "d = delimiter \<or> d = delimiter_2"
  shows "ls \<noteq> [] \<Longrightarrow> \<forall>l \<in> set ls. \<not> occurs_in d l \<Longrightarrow> split_on d (join d ls) = ls"
proof (induction ls rule: list_nonempty_induct)
  case (single l)
  then show ?case by (simp add: join_def split_on_line)
next
  case (cons l rest)
  from assms have ne: "d \<noteq> []" by (auto simp: delimiter_def delimiter_2_def)
  have sep: "\<not> prefix d (c # cs @ d @ join d rest)"
      if "\<not> prefix d (c # cs)" "\<not> occurs_in d cs" for c cs
    using assms that(1) delimiter_sep delimiter_2_sep by blast
  from cons.prems have "\<not> occurs_in d l" by simp
  from split_on_first_line [OF ne sep this] cons show ?case
    by (simp add: join_Cons)
qed

text \<open>
  C3 (as amended). For every non-empty list of lines none of which contains the
  delimiter, feeding the transformer the lines joined by the delimiter, cut into chunks
  at arbitrary places, and flushing it, emits exactly the original lines in their order.
  This holds for the transformer of either listing with its own delimiter.
\<close>

theorem line_framing:
  assumes "ls \<noteq> []" and "concat chunks = join d ls" and "\<forall>l \<in> set ls. \<not> occurs_in d l"
  shows "(d = delimiter \<longrightarrow> received transform chunks = ls)
       \<and> (d = delimiter_2 \<longrightarrow> received transform_2 chunks = ls)"
proof (intro conjI impI)
  assume d: "d = delimiter"
  then have "d \<noteq> []" by (simp add: delimiter_def)
  from received_split [OF this, of chunks] d assms split_on_join [of d ls]
  show "received transform chunks = ls"
    by (simp add: transform_def)
next
  assume d: "d = delimiter_2"
  then have "d \<noteq> []" by (simp add: delimiter_2_def)
  from received_split [OF this, of chunks] d assms split_on_join [of d ls]
  show "received transform_2 chunks = ls"
    by (simp add: transform_2_def)
qed

theorem line_framing_witness:
  "[''ab'', ''c''] \<noteq> []
   \<and> concat [''a'', ''b'' @ [newline] @ ''c''] = join delimiter [''ab'', ''c'']
   \<and> list_all (\<lambda>l. \<not> occurs_in delimiter l) [''ab'', ''c'']
   \<and> received transform [''a'', ''b'' @ [newline] @ ''c''] = [''ab'', ''c'']
   \<and> concat [''ab'' @ [carriage_return], newline # ''c''] = join delimiter_2 [''ab'', ''c'']
   \<and> list_all (\<lambda>l. \<not> occurs_in delimiter_2 l) [''ab'', ''c'']
   \<and> received transform_2 [''ab'' @ [carriage_return], newline # ''c''] = [''ab'', ''c'']"
proof -
  have j1: "concat [''a'', ''b'' @ [newline] @ ''c''] = join delimiter [''ab'', ''c'']"
    by (simp add: join_def delimiter_def)
  have o1: "\<forall>l \<in> set [''ab'', ''c'']. \<not> occurs_in delimiter l"
    by (simp add: delimiter_def newline_def)
  have j2: "concat [''ab'' @ [carriage_return], newline # ''c''] = join delimiter_2 [''ab'', ''c'']"
    by (simp add: join_def delimiter_2_def)
  have o2: "\<forall>l \<in> set [''ab'', ''c'']. \<not> occurs_in delimiter_2 l"
    by (simp add: delimiter_2_def newline_def carriage_return_def)
  have ne: "[''ab'', ''c''] \<noteq> []" by simp
  from line_framing [OF ne j1 o1] line_framing [OF ne j2 o2] j1 j2 o1 o2
  show ?thesis by simp
qed

text \<open>
  The claim as stated fails for the empty list of lines: nothing is fed, and the flush
  still emits the empty buffer as one line.
\<close>

theorem line_framing_counterexample:
  "concat ([] :: string list) = join delimiter []
   \<and> received transform [] = [[]]
   \<and> received transform [] \<noteq> []
   \<and> received transform_2 [] = [[]]"
  by (simp add: join_def received_def new_LineBreakTransformer_def flush_def)

subsection \<open>Disconnecting twice\<close>






subsection \<open>The colour correction command\<close>

lemma radix_digits_small: "n < 16 \<Longrightarrow> radix_digits 16 n = [digit_char n]"
  by (subst radix_digits.simps) simp

lemma cc_byte_0: "cc_byte 0 = 0"
  by (simp add: cc_byte_def fl_def)

text \<open>
  C8. With the three sliders at 0 the command sent is \<open>CLC 000\<close>: every channel is the
  single digit \<open>0\<close>, nothing is padded, and the argument has three characters, not six.
\<close>

theorem colour_correction_unpadded:
  "updateColorCorrection 0 0 0 open_session
     = (None, open_session\<lparr>written := [''CLC 000'' @ [newline]]\<rparr>)
   \<and> length (''000'' :: string) \<noteq> 6"
  by (simp add: updateColorCorrection_def cc_channel_def cc_byte_0 padStart_def
      number_toString_def radix_digits_small digit_char_def toUpperCase_def
      toUpperCase_char_def writeToStream_def open_session_def)

text \<open>
  The channel byte where the rounding of doubles shows: \<^verbatim>\<open>2.55 * 50\<close> is a double just
  below 127.5 and gives 127, \<^verbatim>\<open>2.55 * 10\<close> is the double 25.5 and gives 26.
\<close>

lemma fl_in_binade:
  assumes "2 ^ k \<le> x" "x < 2 ^ Suc k"
  shows "fl x = of_int (round_half_even (x * 2 ^ 52 / 2 ^ k)) * 2 ^ k / 2 ^ 52"
proof -
  have pos: "0 < x" using assms(1) by (smt (verit) zero_less_power)
  have "2 powr real_of_int (int k) \<le> x \<and> x < 2 powr real_of_int (int k + 1)"
    using assms by (simp add: powr_realpow powr_add)
  then have lg: "\<lfloor>log 2 x\<rfloor> = int k"
    using floor_log_eq_powr_iff [of x 2 "int k"] pos by simp
  have u: "2 powr (real k - 52) = (2 ^ k / 2 ^ 52 :: real)"
    by (simp add: powr_diff powr_realpow)
  show ?thesis
    using pos by (simp add: fl_def lg u Let_def)
qed

lemma fl_2_55: "fl 2.55 = 2871044762448691 / 1125899906842624"
proof -
  have "fl 2.55 = of_int (round_half_even (2.55 * 2 ^ 52 / 2 ^ 1)) * 2 ^ 1 / 2 ^ 52"
    by (rule fl_in_binade) simp_all
  also have "round_half_even (2.55 * 2 ^ 52 / 2 ^ 1) = 5742089524897382"
    by (simp add: round_half_even_def Let_def)
  finally show ?thesis by simp
qed

lemma fl_2_55_times_50: "fl (fl 2.55 * 50) = 8972014882652159 / 70368744177664"
proof -
  let ?x = "71776119061217275 / 562949953421312 :: real"
  have x: "fl 2.55 * 50 = ?x" by (simp only: fl_2_55)
  have "fl ?x = of_int (round_half_even (?x * 2 ^ 52 / 2 ^ 6)) * 2 ^ 6 / 2 ^ 52"
    by (rule fl_in_binade) simp_all
  also have "round_half_even (?x * 2 ^ 52 / 2 ^ 6) = 8972014882652159"
    by (simp add: round_half_even_def Let_def)
  also have "real_of_int 8972014882652159 * 2 ^ 6 / 2 ^ 52 = 8972014882652159 / 70368744177664"
    by simp
  finally show ?thesis by (simp only: x)
qed

lemma cc_byte_50: "cc_byte 50 = 127"
  unfolding cc_byte_def by (simp only: fl_2_55_times_50) (simp add: round_def)

lemma fl_2_55_times_10: "fl (fl 2.55 * 10) = 51 / 2"
proof -
  let ?x = "14355223812243455 / 562949953421312 :: real"
  have x: "fl 2.55 * 10 = ?x" by (simp only: fl_2_55)
  have "fl ?x = of_int (round_half_even (?x * 2 ^ 52 / 2 ^ 4)) * 2 ^ 4 / 2 ^ 52"
    by (rule fl_in_binade) simp_all
  also have "round_half_even (?x * 2 ^ 52 / 2 ^ 4) = 7177611906121728"
    by (simp add: round_half_even_def Let_def)
  also have "real_of_int 7177611906121728 * 2 ^ 4 / 2 ^ 52 = 51 / 2"
    by simp
  finally show ?thesis by (simp only: x)
qed

lemma cc_byte_10: "cc_byte 10 = 26"
  unfolding cc_byte_def by (simp only: fl_2_55_times_10) (simp add: round_def)

subsection \<open>The grid of a GIF frame\<close>

lemma forEach_snoc: "forEach f (xs @ [x]) s = andThen (forEach f xs) (f x) s"
  by (induction xs arbitrary: s) (auto simp: andThen_def split: prod.splits option.splits)

lemma write_cols:
  assumes "left + n \<le> length row"
  shows "length (fold (\<lambda>c row'. set_at row' (c + left) (cellf c)) [0..<n] row) = length row
       \<and> (\<forall>c < length row.
             fold (\<lambda>c row'. set_at row' (c + left) (cellf c)) [0..<n] row ! c
               = (if left \<le> c \<and> c < left + n then cellf (c - left) else row ! c))"
  using assms
proof (induction n)
  case 0
  then show ?case by auto
next
  case (Suc n)
  let ?row = "fold (\<lambda>c row'. set_at row' (c + left) (cellf c)) [0..<n] row"
  from Suc have len: "length ?row = length row"
    and cells: "\<forall>c < length row. ?row ! c
               = (if left \<le> c \<and> c < left + n then cellf (c - left) else row ! c)"
    by simp_all
  from Suc.prems len have inr: "n + left < length ?row" by simp
  have step: "fold (\<lambda>c row'. set_at row' (c + left) (cellf c)) [0..<Suc n] row
          = ?row[n + left := cellf n]"
    using inr by (simp add: set_at_def)
  show ?case
    unfolding step using len cells inr
    by (auto simp: nth_list_update)
qed

lemma write_row_cells:
  assumes "dims_left f + dims_width f \<le> length row"
  shows "length (write_row f r row) = length row"
    and "c < length row \<Longrightarrow> write_row f r row ! c
          = (if dims_left f \<le> c \<and> c < dims_left f + dims_width f
             then patch_cell f r (c - dims_left f) else row ! c)"
  using write_cols [OF assms, of "patch_cell f r"]
  by (simp_all add: write_row_def)

lemma write_rows:
  assumes "dims_top f + n \<le> length px"
  shows "\<exists>g. forEach (write_patch_row f) [0..<n] px = (None, g)
           \<and> length g = length px
           \<and> (\<forall>r < length px.
                 g ! r = (if dims_width f \<noteq> 0 \<and> dims_top f \<le> r \<and> r < dims_top f + n
                          then write_row f (r - dims_top f) (px ! r) else px ! r))"
  using assms
proof (induction n)
  case 0
  then show ?case by auto
next
  case (Suc n)
  then obtain g where g: "forEach (write_patch_row f) [0..<n] px = (None, g)"
    and len: "length g = length px"
    and rows: "\<forall>r < length px.
                 g ! r = (if dims_width f \<noteq> 0 \<and> dims_top f \<le> r \<and> r < dims_top f + n
                          then write_row f (r - dims_top f) (px ! r) else px ! r)"
    by auto
  from Suc.prems len have inr: "n + dims_top f < length g" by simp
  have step: "forEach (write_patch_row f) [0..<Suc n] px = write_patch_row f n g"
    using g by (simp add: forEach_snoc andThen_def)
  show ?case
  proof (cases "dims_width f = 0")
    case True
    then have "write_patch_row f n g = (None, g)"
      by (simp add: write_patch_row_def)
    then show ?thesis
      unfolding step using len rows True by auto
  next
    case False
    with inr have "write_patch_row f n g
        = (None, g[n + dims_top f := write_row f n (g ! (n + dims_top f))])"
      by (simp add: write_patch_row_def)
    moreover have "g ! (n + dims_top f) = px ! (n + dims_top f)"
      using rows inr len by simp
    ultimately show ?thesis
      unfolding step using len rows inr False by (auto simp: nth_list_update)
  qed
qed

lemma draw_gifFrame_grid:
  assumes "grid16 px"
    and "dims_top f + dims_height f \<le> 16" "dims_left f + dims_width f \<le> 16"
  shows "\<exists>g. draw_gifFrame f px = (None, g)
           \<and> grid16 g
           \<and> (\<forall>r < 16. length (g ! r) = 16
                 \<and> (\<forall>c < 16. g ! r ! c
                      = (if dims_top f \<le> r \<and> r < dims_top f + dims_height f
                            \<and> dims_left f \<le> c \<and> c < dims_left f + dims_width f
                         then patch_cell f (r - dims_top f) (c - dims_left f)
                         else Num 0)))"
proof -
  let ?px = "clear_pixels px"
  have px: "length px = 16" "\<forall>r < 16. length (px ! r) = 16"
    using assms(1) by (simp_all add: grid16_def list_all_length)
  have len: "length ?px = 16" using px(1) by (simp add: clear_pixels_def)
  have rowlen: "length (?px ! r) = 16" if "r < 16" for r
    using px that by (simp add: clear_pixels_def)
  have zero: "?px ! r ! c = Num 0" if "r < 16" "c < 16" for r c
    using px that by (simp add: clear_pixels_def)
  from write_rows [of f "dims_height f" ?px] assms(2) len
  obtain g where g: "forEach (write_patch_row f) [0..<dims_height f] ?px = (None, g)"
    and glen: "length g = 16"
    and rows: "\<forall>r < 16.
                 g ! r = (if dims_width f \<noteq> 0 \<and> dims_top f \<le> r \<and> r < dims_top f + dims_height f
                          then write_row f (r - dims_top f) (?px ! r) else ?px ! r)"
    by auto
  have "length (g ! r) = 16
        \<and> (\<forall>c < 16. g ! r ! c
                      = (if dims_top f \<le> r \<and> r < dims_top f + dims_height f
                            \<and> dims_left f \<le> c \<and> c < dims_left f + dims_width f
                         then patch_cell f (r - dims_top f) (c - dims_left f)
                         else Num 0))" if r: "r < 16" for r
  proof -
    have wide: "dims_left f + dims_width f \<le> length (?px ! r)"
      using rowlen [OF r] assms(3) by simp
    show ?thesis
      using rows r rowlen [OF r] zero [OF r] write_row_cells [OF wide]
      by auto
  qed
  with g glen show ?thesis
    by (simp add: draw_gifFrame_def grid16_def list_all_length)
qed

lemma only_TypeError: "(e :: error) = TypeError"
  by (cases e)

lemma traverse_fails:
  "x \<in> set xs \<Longrightarrow> f x = Inl TypeError \<Longrightarrow> traverse f xs = Inl TypeError"
proof (induction xs)
  case Nil
  then show ?case by simp
next
  case (Cons y ys)
  show ?case
  proof (cases "f y")
    case (Inl e)
    then show ?thesis by (simp add: only_TypeError [of e])
  next
    case (Inr v)
    with Cons have "traverse f ys = Inl TypeError" by auto
    with Inr show ?thesis by simp
  qed
qed

lemma encode_row_fails:
  assumes "c \<in> set row" "\<forall>r g b. c \<noteq> Rgb r g b"
  shows "encode_row tbl row = Inl TypeError"
proof -
  from assms(2) have "encode_cell tbl c = Inl TypeError"
    by (cases c) (simp_all add: encode_cell_def)
  from traverse_fails [of c row "encode_cell tbl", OF assms(1) this] show ?thesis
    by (simp add: encode_row_def)
qed

lemma new_Frame_fails:
  assumes "r < length px" "c < length (px ! r)" "\<forall>x y z. px ! r ! c \<noteq> Rgb x y z"
  shows "new_Frame tbl ms px = Inl TypeError"
proof -
  have "px ! r ! c \<in> set (px ! r)" using assms(2) by simp
  from encode_row_fails [OF this assms(3)]
  have "encode_row tbl (px ! r) = Inl TypeError" .
  moreover have "px ! r \<in> set px" using assms(1) by simp
  ultimately have "traverse (encode_row tbl) px = Inl TypeError"
    using traverse_fails [of "px ! r" px "encode_row tbl"] by simp
  then show ?thesis by (simp add: new_Frame_def)
qed

lemma new_Frame_succeeds:
  assumes "\<forall>row \<in> set px. \<forall>c \<in> set row. \<exists>x y z. c = Rgb x y z"
  shows "\<exists>fr. new_Frame tbl ms px = Inr fr"
proof -
  let ?g = "\<lambda>c. case c of Rgb x y z \<Rightarrow> paddedHex (pixel_value tbl x y z) 6 | _ \<Rightarrow> []"
  have "encode_row tbl row = Inr (concat (map ?g row))" if "row \<in> set px" for row
  proof -
    have "traverse (encode_cell tbl) row = Inr (map ?g row)"
    proof (rule traverse_total)
      fix c assume "c \<in> set row"
      with assms that obtain x y z where "c = Rgb x y z" by blast
      then show "encode_cell tbl c = Inr (?g c)" by (simp add: encode_cell_def)
    qed
    then show ?thesis by (simp add: encode_row_def)
  qed
  then have "traverse (encode_row tbl) px = Inr (map (\<lambda>row. concat (map ?g row)) px)"
    by (rule traverse_total)
  then show ?thesis by (simp add: new_Frame_def)
qed

text \<open>A frame that covers the screen is encoded; one that leaves a cell out is not.\<close>

lemma add_gifFrame_covering:
  assumes "grid16 px"
    and "dims_top f = 0" "dims_left f = 0" "dims_width f = 16" "dims_height f = 16"
  shows "\<exists>px' fr. add_gifFrame tbl f (px, anim) = (None, (px', addFrame fr anim)) \<and> grid16 px'"
proof -
  from draw_gifFrame_grid [of px f] assms obtain g
    where g: "draw_gifFrame f px = (None, g)" "grid16 g"
      and cells: "\<forall>r < 16. length (g ! r) = 16 \<and> (\<forall>c < 16. g ! r ! c = patch_cell f r c)"
    by auto
  have len: "length g = 16" using g(2) by (simp add: grid16_def)
  have "\<forall>row \<in> set g. \<forall>c \<in> set row. \<exists>x y z. c = Rgb x y z"
  proof (intro ballI)
    fix row c assume "row \<in> set g" "c \<in> set row"
    then obtain r k where "r < 16" "row = g ! r" "k < length row" "c = row ! k"
      using len by (metis in_set_conv_nth)
    with cells have "c = patch_cell f r k" by auto
    then show "\<exists>x y z. c = Rgb x y z" by (simp add: patch_cell_def Let_def)
  qed
  from new_Frame_succeeds [OF this, of tbl "frame_delay f"] obtain fr
    where "new_Frame tbl (frame_delay f) g = Inr fr" by blast
  with g show ?thesis by (auto simp: add_gifFrame_def)
qed

lemma add_gifFrame_partial:
  assumes "grid16 px"
    and "dims_top f + dims_height f \<le> 16" "dims_left f + dims_width f \<le> 16"
    and "r < 16" "c < 16"
    and "\<not> (dims_top f \<le> r \<and> r < dims_top f + dims_height f
            \<and> dims_left f \<le> c \<and> c < dims_left f + dims_width f)"
  shows "\<exists>px'. add_gifFrame tbl f (px, anim) = (Some TypeError, (px', anim)) \<and> px' ! r ! c = Num 0"
proof -
  from draw_gifFrame_grid [OF assms(1-3)] obtain g
    where g: "draw_gifFrame f px = (None, g)" "grid16 g"
      and cells: "\<forall>r < 16. length (g ! r) = 16 \<and> (\<forall>c < 16. g ! r ! c
                      = (if dims_top f \<le> r \<and> r < dims_top f + dims_height f
                            \<and> dims_left f \<le> c \<and> c < dims_left f + dims_width f
                         then patch_cell f (r - dims_top f) (c - dims_left f)
                         else Num 0))"
    by blast
  have len: "length g = 16" using g(2) by (simp add: grid16_def)
  from cells assms(4-6) have zero: "g ! r ! c = Num 0" and rl: "length (g ! r) = 16"
    by auto
  have "new_Frame tbl (frame_delay f) g = Inl TypeError"
    by (rule new_Frame_fails [of r _ c]) (simp_all add: len rl assms zero)
  with g zero show ?thesis by (simp add: add_gifFrame_def)
qed

lemma sendGifAnimation_two_frames:
  "sendGifAnimation (Some two_frame_gif) st = (Some TypeError, st)"
proof -
  let ?tbl = "gammaTable st" and ?anim = "newAnimation 600000"
  have g0: "grid16 initial_pixels"
    by (simp add: grid16_def initial_pixels_def ROWS_def COLS_def list_all_iff)
  from add_gifFrame_covering [OF g0, of full_frame ?tbl ?anim] obtain px1 fr1
    where 1: "add_gifFrame ?tbl full_frame (initial_pixels, ?anim) = (None, (px1, addFrame fr1 ?anim))"
      and g1: "grid16 px1"
    by (auto simp: full_frame_def)
  from add_gifFrame_partial [OF g1, of dot_frame 5 5 ?tbl "addFrame fr1 ?anim"] obtain px2
    where 2: "add_gifFrame ?tbl dot_frame (px1, addFrame fr1 ?anim)
                = (Some TypeError, (px2, addFrame fr1 ?anim))"
    by (auto simp: dot_frame_def)
  have "forEach (add_gifFrame ?tbl) [full_frame, dot_frame] (initial_pixels, ?anim)
          = (Some TypeError, (px2, addFrame fr1 ?anim))"
    by (simp add: andThen_def 1 2)
  then show ?thesis
    by (simp add: sendGifAnimation_def two_frame_gif_def ROWS_def COLS_def)
qed

lemma traverse_length: "traverse f xs = Inr ys \<Longrightarrow> length ys = length xs"
  by (induction xs arbitrary: ys) (auto split: sum.splits)

lemma new_Frame_rows: "new_Frame tbl ms px = Inr fr \<Longrightarrow> length (rows fr) = length px"
  by (auto simp: new_Frame_def split: sum.splits dest: traverse_length)

lemma sendAnimation_open:
  "outputStream st \<Longrightarrow>
     sendAnimation anim st
       = (None, st\<lparr>written := written st @ terminated (animation_lines anim)\<rparr>)"
  by (simp add: sendAnimation_def andThen_def writeToStream_open forEach_frames_open
      animation_lines_def terminated_def)

lemma sendGifAnimation_one_frame:
  assumes "outputStream st"
  shows "\<exists>st'. sendGifAnimation (Some one_frame_gif) st = (None, st')
           \<and> length (written st') = length (written st) + 20"
proof -
  let ?tbl = "gammaTable st" and ?anim = "newAnimation 600000"
  have g0: "grid16 initial_pixels"
    by (simp add: grid16_def initial_pixels_def ROWS_def COLS_def list_all_iff)
  from draw_gifFrame_grid [OF g0, of full_frame] obtain g
    where g: "draw_gifFrame full_frame initial_pixels = (None, g)" and g16: "grid16 g"
      and cells: "\<forall>r < 16. length (g ! r) = 16 \<and> (\<forall>c < 16. \<exists>x y z. g ! r ! c = Rgb x y z)"
    by (auto simp: full_frame_def patch_cell_def Let_def)
  have len: "length g = 16" using g16 by (simp add: grid16_def)
  have "\<forall>row \<in> set g. \<forall>c \<in> set row. \<exists>x y z. c = Rgb x y z"
  proof (intro ballI)
    fix row c assume "row \<in> set g" "c \<in> set row"
    then obtain r k where "r < 16" "row = g ! r" "k < length row" "c = row ! k"
      using len by (metis in_set_conv_nth)
    with cells show "\<exists>x y z. c = Rgb x y z" by auto
  qed
  from new_Frame_succeeds [OF this, of ?tbl "frame_delay full_frame"] obtain fr
    where fr: "new_Frame ?tbl (frame_delay full_frame) g = Inr fr" by blast
  from new_Frame_rows [OF fr] len have rows: "length (rows fr) = 16" by simp
  have step: "forEach (add_gifFrame ?tbl) [full_frame] (initial_pixels, ?anim)
          = (None, (g, addFrame fr ?anim))"
    by (simp add: andThen_def add_gifFrame_def g fr)
  have send: "sendGifAnimation (Some one_frame_gif) st = sendAnimation (addFrame fr ?anim) st"
    by (simp add: sendGifAnimation_def one_frame_gif_def ROWS_def COLS_def step
        del: forEach.simps)
  have "length (animation_lines (addFrame fr ?anim)) = 20"
    using rows by (simp add: animation_lines_def addFrame_def newAnimation_def frame_lines_def)
  with sendAnimation_open [OF assms, of "addFrame fr ?anim"] send show ?thesis
    by (simp add: terminated_def)
qed

lemma grid16_initial: "grid16 initial_pixels"
  by (simp add: grid16_def initial_pixels_def ROWS_def COLS_def list_all_iff)

lemma dot_frame_leaves_cell:
  "snd (draw_gifFrame full_frame initial_pixels) ! 5 ! 5 = Rgb (Some 200) (Some 200) (Some 200)
   \<and> snd (draw_gifFrame dot_frame (snd (draw_gifFrame full_frame initial_pixels))) ! 5 ! 5 = Num 0"
proof -
  have b1: "dims_top full_frame + dims_height full_frame \<le> 16"
    "dims_left full_frame + dims_width full_frame \<le> 16"
    by (simp_all add: full_frame_def)
  have b2: "dims_top dot_frame + dims_height dot_frame \<le> 16"
    "dims_left dot_frame + dims_width dot_frame \<le> 16"
    by (simp_all add: dot_frame_def)
  from draw_gifFrame_grid [OF grid16_initial b1] obtain g1
    where g1: "draw_gifFrame full_frame initial_pixels = (None, g1)" "grid16 g1"
      and c1: "\<forall>r < 16. length (g1 ! r) = 16 \<and> (\<forall>c < 16. g1 ! r ! c
                      = (if dims_top full_frame \<le> r \<and> r < dims_top full_frame + dims_height full_frame
                            \<and> dims_left full_frame \<le> c \<and> c < dims_left full_frame + dims_width full_frame
                         then patch_cell full_frame (r - dims_top full_frame) (c - dims_left full_frame)
                         else Num 0))"
    by blast
  from draw_gifFrame_grid [OF g1(2) b2] obtain g2
    where g2: "draw_gifFrame dot_frame g1 = (None, g2)"
      and c2: "\<forall>r < 16. length (g2 ! r) = 16 \<and> (\<forall>c < 16. g2 ! r ! c
                      = (if dims_top dot_frame \<le> r \<and> r < dims_top dot_frame + dims_height dot_frame
                            \<and> dims_left dot_frame \<le> c \<and> c < dims_left dot_frame + dims_width dot_frame
                         then patch_cell dot_frame (r - dims_top dot_frame) (c - dims_left dot_frame)
                         else Num 0))"
    by blast
  have "g1 ! 5 ! 5 = Rgb (Some 200) (Some 200) (Some 200)"
    using c1 [rule_format, of 5, THEN conjunct2, rule_format, of 5]
    by (simp add: full_frame_def patch_cell_def byte_at_def)
  moreover have "g2 ! 5 ! 5 = Num 0"
    using c2 [rule_format, of 5, THEN conjunct2, rule_format, of 5]
    by (simp add: dot_frame_def)
  ultimately show ?thesis
    by (simp add: g1 g2)
qed

text \<open>
  C9. A GIF of 16 by 16 pixels whose first frame covers the screen and whose second frame
  has a patch of one pixel. With the first frame alone the animation is encoded and
  sent, 20 lines on an open stream. With the second frame the grid is reset before the
  patch is written, cell (5, 5), which the first frame had painted and which lies
  outside the second patch, holds the number 0, the \<open>Frame\<close> constructor throws on it,
  and the handler ends with a TypeError and nothing written: the frame with the patch
  composited on the content of the previous frame is never produced.
\<close>

theorem gif_partial_patch_throws:
  "lsd_width two_frame_gif = 16 \<and> lsd_height two_frame_gif = 16
   \<and> decompressFrames two_frame_gif = Some [full_frame, dot_frame]
   \<and> snd (draw_gifFrame full_frame initial_pixels) ! 5 ! 5
        = Rgb (Some 200) (Some 200) (Some 200)
   \<and> snd (draw_gifFrame dot_frame (snd (draw_gifFrame full_frame initial_pixels))) ! 5 ! 5
        = Num 0
   \<and> sendGifAnimation (Some two_frame_gif) st = (Some TypeError, st)
   \<and> (outputStream st \<longrightarrow>
        (\<exists>st'. sendGifAnimation (Some one_frame_gif) st = (None, st')
              \<and> length (written st') = length (written st) + 20))"
  using sendGifAnimation_two_frames [of st] sendGifAnimation_one_frame [of st]
    dot_frame_leaves_cell
  by (simp add: two_frame_gif_def)

theorem gif_partial_patch_throws_witness:
  "outputStream open_session
   \<and> sendGifAnimation (Some two_frame_gif) open_session = (Some TypeError, open_session)
   \<and> (\<exists>st'. sendGifAnimation (Some one_frame_gif) open_session = (None, st')
          \<and> length (written st') = length (written open_session) + 20)"
proof -
  have o: "outputStream open_session" by (simp add: open_session_def)
  from gif_partial_patch_throws [of open_session] o show ?thesis by blast
qed

subsection \<open>Inputs of the wrong size\<close>








subsection \<open>The gamma tables\<close>

lemma js_pow_positive: "0 < e \<Longrightarrow> 0 \<le> x \<Longrightarrow> js_pow x e = Some (x powr e)"
  by (simp add: js_pow_def)

lemma gamma_entry_positive:
  "0 < e \<Longrightarrow> gamma_entry e i = Some (round (255 * (real i / 255) powr e))"
  by (simp add: gamma_entry_def js_pow_positive)

lemma build_table_nth:
  "0 < e \<Longrightarrow> i < 256 \<Longrightarrow> build_table e ! i = Some (round (255 * (real i / 255) powr e))"
  by (simp add: build_table_def gamma_entry_positive)

lemma build_table_the:
  "0 < e \<Longrightarrow> map the (build_table e) = map (\<lambda>i. round (255 * (real i / 255) powr e)) [0..<256]"
  by (simp add: build_table_def gamma_entry_positive)

lemma entry_mono:
  assumes "0 < e" "i \<le> j"
  shows "round (255 * (real i / 255) powr e) \<le> round (255 * (real j / 255) powr e)"
proof -
  have "(real i / 255) powr e \<le> (real j / 255) powr e"
    using assms by (intro powr_mono2) (simp_all add: divide_right_mono)
  then show ?thesis
    by (intro round_mono) simp
qed

lemma build_table_shape:
  assumes "0 < e"
  shows "length (build_table e) = 256 \<and> build_table e ! 0 = Some 0
         \<and> None \<notin> set (build_table e) \<and> sorted (map the (build_table e))"
proof -
  have "sorted (map (\<lambda>i. round (255 * (real i / 255) powr e)) [0..<256])"
    unfolding sorted_iff_nth_mono using entry_mono [OF assms] by simp
  then have "sorted (map the (build_table e))"
    by (simp only: build_table_the [OF assms])
  moreover have "None \<notin> set (build_table e)"
    using assms by (auto simp: build_table_def gamma_entry_positive)
  moreover have "build_table e ! 0 = Some 0"
    using build_table_nth [OF assms, of 0] by simp
  moreover have "length (build_table e) = 256"
    by (simp add: build_table_def)
  ultimately show ?thesis by blast
qed

lemma andThen_keeps:
  assumes "\<And>s. K (snd (f s)) = K s" and "\<And>s. K (snd (g s)) = K s"
  shows "K (snd (andThen f g s)) = K s"
proof (cases "f s")
  case (Pair r s')
  with assms(1) [of s] have s': "K s' = K s" by simp
  show ?thesis
  proof (cases r)
    case None
    with Pair s' assms(2) [of s'] show ?thesis by (simp add: andThen_def)
  next
    case (Some e)
    with Pair s' show ?thesis by (simp add: andThen_def)
  qed
qed

lemma forEach_keeps:
  assumes "\<And>x s. K (snd (f x s)) = K s"
  shows "K (snd (forEach f xs s)) = K s"
proof (induction xs arbitrary: s)
  case Nil
  show ?case by simp
next
  case (Cons x xs)
  show ?case
    unfolding forEach.simps
    by (rule andThen_keeps) (rule assms, rule Cons.IH)
qed

lemma writeToStream_keeps: "gammaTable (snd (writeToStream ls st)) = gammaTable st"
  by (simp add: writeToStream_def)

lemma sendImage_2_keeps: "gammaTable (snd (sendImage_2 drawImage img canvas st)) = gammaTable st"
  unfolding sendImage_2_def Let_def
  by (intro andThen_keeps forEach_keeps writeToStream_keeps)

lemma updateGamma_2_table:
  "gammaTable (snd (updateGamma_2 v currentImage drawImage canvas st)) = build_table_2 v"
  by (cases currentImage) (simp_all add: updateGamma_2_def Let_def sendImage_2_keeps)

lemma gamma_in_range:
  "0 \<le> v \<Longrightarrow> v \<le> 100 \<Longrightarrow> 1 / 2 \<le> gammaValueFromSlider v \<and> gammaValueFromSlider v \<le> 3"
  by (simp add: gammaValueFromSlider_def MIN_GAMMA_def MAX_GAMMA_def)

text \<open>
  C4. In the first listing every slider position from 0 to 100 gives a gamma between 0.5
  and 3.0, and in the second listing every positive slider position gives a positive
  exponent; in both the table stored by \<open>updateGamma\<close> has exactly 256 entries, all of
  them finite, the entry at index 0 is 0, and the entries do not decrease with the index.
\<close>

theorem gamma_table_shape:
  "(0 \<le> v \<and> v \<le> 100 \<longrightarrow>
      1 / 2 \<le> gammaValueFromSlider v \<and> gammaValueFromSlider v \<le> 3
      \<and> length (gammaTable (updateGamma v st)) = 256
      \<and> gammaTable (updateGamma v st) ! 0 = Some 0
      \<and> None \<notin> set (gammaTable (updateGamma v st))
      \<and> sorted (map the (gammaTable (updateGamma v st))))
   \<and> (0 < v \<longrightarrow>
      length (gammaTable (snd (updateGamma_2 v currentImage drawImage canvas st))) = 256
      \<and> gammaTable (snd (updateGamma_2 v currentImage drawImage canvas st)) ! 0 = Some 0
      \<and> None \<notin> set (gammaTable (snd (updateGamma_2 v currentImage drawImage canvas st)))
      \<and> sorted (map the (gammaTable (snd (updateGamma_2 v currentImage drawImage canvas st)))))"
proof (rule conjI; rule impI)
  assume v: "0 \<le> v \<and> v \<le> 100"
  then have "0 \<le> v" "v \<le> 100" by simp_all
  then have r: "1 / 2 \<le> gammaValueFromSlider v \<and> gammaValueFromSlider v \<le> 3"
    by (rule gamma_in_range)
  then have "0 < gammaValueFromSlider v" by simp
  from build_table_shape [OF this] r
  show "1 / 2 \<le> gammaValueFromSlider v \<and> gammaValueFromSlider v \<le> 3
      \<and> length (gammaTable (updateGamma v st)) = 256
      \<and> gammaTable (updateGamma v st) ! 0 = Some 0
      \<and> None \<notin> set (gammaTable (updateGamma v st))
      \<and> sorted (map the (gammaTable (updateGamma v st)))"
    by (simp add: updateGamma_def)
next
  assume v: "0 < v"
  then have "0 < 100 / v" by simp
  from build_table_shape [OF this] v
  show "length (gammaTable (snd (updateGamma_2 v currentImage drawImage canvas st))) = 256
      \<and> gammaTable (snd (updateGamma_2 v currentImage drawImage canvas st)) ! 0 = Some 0
      \<and> None \<notin> set (gammaTable (snd (updateGamma_2 v currentImage drawImage canvas st)))
      \<and> sorted (map the (gammaTable (snd (updateGamma_2 v currentImage drawImage canvas st))))"
    by (simp add: updateGamma_2_table build_table_2_def)
qed

theorem gamma_table_shape_witness:
  "(0::real) \<le> 60 \<and> (60::real) \<le> 100
   \<and> length (gammaTable (updateGamma 60 open_session)) = 256
   \<and> gammaTable (updateGamma 60 open_session) ! 0 = Some 0
   \<and> sorted (map the (gammaTable (updateGamma 60 open_session)))
   \<and> (0::real) < 50
   \<and> length (gammaTable (snd (updateGamma_2 50 None blit blank_canvas open_session))) = 256
   \<and> gammaTable (snd (updateGamma_2 50 None blit blank_canvas open_session)) ! 0 = Some 0
   \<and> sorted (map the (gammaTable (snd (updateGamma_2 50 None blit blank_canvas open_session))))"
  using gamma_table_shape [of 60 open_session None blit blank_canvas]
    gamma_table_shape [of 50 open_session None blit blank_canvas]
  by simp

text \<open>
  The entry at index 64 for the exponents 2 and 1/2:
  \<open>255 * (64 / 255)\<^sup>2\<close> is about 16.06, \<open>255 * sqrt (64 / 255)\<close> about 127.75.
\<close>

lemma entry_64_square: "round (255 * (64 / 255 :: real) ^ 2) = 16"
  by (rule round_unique) (simp_all add: power2_eq_square)

lemma entry_64_root: "round (255 * sqrt (64 / 255)) = 128"
proof (rule round_unique)
  have "(1/2)\<^sup>2 < (64 / 255 :: real)" by (simp add: power2_eq_square)
  then have "1/2 < sqrt (64 / 255)" by (rule real_less_rsqrt)
  then show "real_of_int 128 \<le> 255 * sqrt (64 / 255) + 1 / 2" by simp
  have "(64 / 255 :: real) < (257 / 510)\<^sup>2" by (simp add: power2_eq_square)
  then have "sqrt (64 / 255) < 257 / 510" by (intro real_less_lsqrt) simp_all
  then show "255 * sqrt (64 / 255) - 1 / 2 < real_of_int 128" by simp
qed

lemma gamma_at_slider_0: "gammaValueFromSlider 0 = 1 / 2"
  by (simp add: gammaValueFromSlider_def MIN_GAMMA_def)

lemma table_1_at_64: "gammaTable (updateGamma 0 st) ! 64 = Some 128"
proof -
  have "build_table (1 / 2) ! 64 = Some (round (255 * (real 64 / 255) powr (1 / 2)))"
    by (rule build_table_nth) simp_all
  also have "\<dots> = Some 128" using entry_64_root by (simp add: powr_half_sqrt)
  finally show ?thesis by (simp add: updateGamma_def gamma_at_slider_0)
qed

lemma table_2_at_64:
  "gammaTable (snd (updateGamma_2 50 currentImage drawImage canvas st)) ! 64 = Some 16"
proof -
  have "build_table 2 ! 64 = Some (round (255 * (real 64 / 255) powr 2))"
    by (rule build_table_nth) simp_all
  also have "\<dots> = Some 16" using entry_64_square by simp
  finally show ?thesis by (simp add: updateGamma_2_table build_table_2_def)
qed

text \<open>
  C5 (as amended). In the first listing the entry at index \<open>i\<close> is
  \<open>round (255 * (i / 255) ^ gamma)\<close> for the gamma parameter
  \<open>gammaValueFromSlider slider\<close>. In the second listing the exponent is the reciprocal of
  its gamma value \<open>slider / 100\<close>. The two do not agree: at the gamma value 1/2, slider 0
  in the first listing and slider 50 in the second, the entries at index 64 differ.
\<close>

theorem gamma_conventions:
  "(0 \<le> v \<and> i < 256 \<longrightarrow>
      gammaTable (updateGamma v st) ! i
        = Some (round (255 * (real i / 255) powr gammaValueFromSlider v)))
   \<and> (0 < v \<and> i < 256 \<longrightarrow>
      gammaTable (snd (updateGamma_2 v currentImage drawImage canvas st)) ! i
        = Some (round (255 * (real i / 255) powr (1 / gammaDisplay_2 v))))
   \<and> gammaValueFromSlider 0 = gammaDisplay_2 50
   \<and> gammaTable (updateGamma 0 st) ! 64
        \<noteq> gammaTable (snd (updateGamma_2 50 currentImage drawImage canvas st)) ! 64"
proof (intro conjI impI)
  assume a: "0 \<le> v \<and> i < 256"
  then have "0 < gammaValueFromSlider v"
    by (simp add: gammaValueFromSlider_def MIN_GAMMA_def MAX_GAMMA_def add_pos_nonneg)
  from build_table_nth [OF this, of i] a
  show "gammaTable (updateGamma v st) ! i
        = Some (round (255 * (real i / 255) powr gammaValueFromSlider v))"
    by (simp add: updateGamma_def)
next
  assume a: "0 < v \<and> i < 256"
  then have "0 < 100 / v" by simp
  from build_table_nth [OF this, of i] a
  show "gammaTable (snd (updateGamma_2 v currentImage drawImage canvas st)) ! i
        = Some (round (255 * (real i / 255) powr (1 / gammaDisplay_2 v)))"
    by (simp add: updateGamma_2_table build_table_2_def gammaDisplay_2_def)
next
  show "gammaValueFromSlider 0 = gammaDisplay_2 50"
    by (simp add: gamma_at_slider_0 gammaDisplay_2_def)
next
  show "gammaTable (updateGamma 0 st) ! 64
        \<noteq> gammaTable (snd (updateGamma_2 50 currentImage drawImage canvas st)) ! 64"
    by (simp only: table_1_at_64 table_2_at_64) simp
qed

theorem gamma_conventions_witness:
  "(0::real) \<le> 0 \<and> (64::nat) < 256
   \<and> gammaTable (updateGamma 0 open_session) ! 64
        = Some (round (255 * (real 64 / 255) powr gammaValueFromSlider 0))
   \<and> (0::real) < 50
   \<and> gammaTable (snd (updateGamma_2 50 None blit blank_canvas open_session)) ! 64
        = Some (round (255 * (real 64 / 255) powr (1 / gammaDisplay_2 50)))"
  using gamma_conventions [of 0 64 open_session None blit blank_canvas]
    gamma_conventions [of 50 64 open_session None blit blank_canvas]
  by simp

text \<open>
  In the second listing at the gamma value 1/2 (slider 50) the entry at index 64 is 16,
  not \<open>round (255 * (64 / 255) ^ (1/2)) = 128\<close>, which is the entry of the first listing
  at the gamma value 1/2 (slider 0).
\<close>

theorem gamma_conventions_counterexample:
  "gammaDisplay_2 50 = 1 / 2
   \<and> gammaTable (snd (updateGamma_2 50 None blit blank_canvas open_session)) ! 64 = Some 16
   \<and> round (255 * (real 64 / 255) powr (1 / 2)) = 128
   \<and> gammaValueFromSlider 0 = 1 / 2
   \<and> gammaTable (updateGamma 0 open_session) ! 64 = Some 128"
proof -
  have "round (255 * (real 64 / 255) powr (1 / 2)) = 128"
    using entry_64_root by (simp add: powr_half_sqrt)
  moreover have "gammaDisplay_2 50 = 1 / 2"
    by (simp add: gammaDisplay_2_def)
  ultimately show ?thesis
    using table_1_at_64 table_2_at_64 gamma_at_slider_0 by simp
qed


end
